theory Spec2Isabelle
  imports Main "HOL-Library.Word" "HOL-Library.Sublist"
begin

section \<open>The /channel-list command of channel-list-tool\<close>

text \<open>
  The repository holds two variants of one Slack slash command: \<^verbatim>\<open>src/app.js\<close>
  (HTTP receiver) and \<^verbatim>\<open>src/unnamed/part_000\<close> (Socket Mode). Both are embedded.
  Definitions of the Socket Mode variant carry the suffix \<open>_sm\<close> where the two files
  differ; helpers that are identical in both files are defined once.
\<close>

subsection \<open>JavaScript strings\<close>

text \<open>
  A JavaScript string is a sequence of UTF-16 code units. String literals of the source
  are ASCII and are written as Isabelle strings under \<open>utf16\<close>.
\<close>

type_synonym jschar = "16 word"
type_synonym jsstring = "jschar list"

definition utf16 :: "string \<Rightarrow> jsstring" where
  "utf16 s = map of_char s"

text \<open>
  The character class \<^verbatim>\<open>\s\<close> of a JavaScript regular expression, which is also the set
  of code units that \<^verbatim>\<open>String.prototype.trim\<close> strips (WhiteSpace and LineTerminator).
\<close>

definition isSpace :: "jschar \<Rightarrow> bool" where
  "isSpace c \<longleftrightarrow>
     c = 0x0009 \<or> c = 0x000A \<or> c = 0x000B \<or> c = 0x000C \<or> c = 0x000D \<or> c = 0x0020 \<or>
     c = 0x00A0 \<or> c = 0x1680 \<or> (0x2000 \<le> c \<and> c \<le> 0x200A) \<or> c = 0x2028 \<or>
     c = 0x2029 \<or> c = 0x202F \<or> c = 0x205F \<or> c = 0x3000 \<or> c = 0xFEFF"

text \<open>The character class \<^verbatim>\<open>[A-Z0-9]\<close>.\<close>

definition isIdChar :: "jschar \<Rightarrow> bool" where
  "isIdChar c \<longleftrightarrow> (0x41 \<le> c \<and> c \<le> 0x5A) \<or> (0x30 \<le> c \<and> c \<le> 0x39)"

text \<open>\<^verbatim>\<open>s.trim()\<close>: white space is removed from both ends.\<close>

definition trim :: "jsstring \<Rightarrow> jsstring" where
  "trim s = rev (dropWhile isSpace (rev (dropWhile isSpace s)))"

text \<open>
  \<^verbatim>\<open>s.split(/\s+/)\<close>: the pieces of \<open>s\<close> between the maximal runs of white space. The
  empty string gives one empty piece; white space at either end gives an empty piece
  there.
\<close>

function split_ws :: "jsstring \<Rightarrow> jsstring list" where
  "split_ws s =
     (let piece = takeWhile (\<lambda>c. \<not> isSpace c) s;
          rest = dropWhile (\<lambda>c. \<not> isSpace c) s
      in if rest = [] then [piece] else piece # split_ws (dropWhile isSpace rest))"
  by pat_completeness auto
termination
proof (relation "measure length")
  show "wf (measure length)" by simp
next
  fix s :: jsstring and piece rest
  assume r: "rest = dropWhile (\<lambda>c. \<not> isSpace c) s" and ne: "rest \<noteq> []"
  from ne obtain c cs where rc: "rest = c # cs" by (cases rest) auto
  from r rc have "dropWhile (\<lambda>c. \<not> isSpace c) s = c # cs" by simp
  then have "isSpace c" by (simp add: dropWhile_eq_Cons_conv)
  with rc have "length (dropWhile isSpace rest) \<le> length cs"
    by (simp add: length_dropWhile_le)
  also have "length cs < length rest" using rc by simp
  also have "length rest \<le> length s" using r by (simp add: length_dropWhile_le)
  finally show "(dropWhile isSpace rest, s) \<in> measure length" by simp
qed

declare split_ws.simps [simp del]

text \<open>\<^verbatim>\<open>xs.join(sep)\<close> on an array of strings.\<close>

fun join :: "jsstring \<Rightarrow> jsstring list \<Rightarrow> jsstring" where
  "join sep [] = []"
| "join sep [x] = x"
| "join sep (x # y # ys) = x @ sep @ join sep (y # ys)"

text \<open>A number in a template literal: its decimal digits.\<close>

fun decimal :: "nat \<Rightarrow> jsstring" where
  "decimal n = (if n < 10 then [0x30 + of_nat n] else decimal (n div 10) @ [0x30 + of_nat (n mod 10)])"

declare decimal.simps [simp del]

subsection \<open>extractUserId\<close>

text \<open>
  \<^verbatim>\<open>const match = mention.match(/<@([A-Z0-9]+)>/); return match ? match[1] : null;\<close>

  The expression is not anchored: \<open>match\<close> tries every start position from the left.
  \<open>match_here\<close> is the attempt at the start of \<open>s\<close>: the two literal code units, the
  longest run of the class (the code unit after it must be \<^verbatim>\<open>>\<close>, which is not in the
  class, so no shorter run can succeed), the closing bracket. The result is capture
  group 1.
\<close>

definition match_here :: "jsstring \<Rightarrow> jsstring option" where
  "match_here s =
     (case s of
        a # b # r \<Rightarrow>
          if a = 0x3C \<and> b = 0x40 then
            (let run = takeWhile isIdChar r; after = dropWhile isIdChar r
             in if run \<noteq> [] \<and> after \<noteq> [] \<and> hd after = 0x3E then Some run else None)
          else None
      | _ \<Rightarrow> None)"

fun extractUserId :: "jsstring \<Rightarrow> jsstring option" where
  "extractUserId [] = None"
| "extractUserId (c # cs) =
     (case match_here (c # cs) of Some i \<Rightarrow> Some i | None \<Rightarrow> extractUserId cs)"

subsection \<open>Parsing the command text\<close>

text \<open>
  \<^verbatim>\<open>src/app.js\<close>:
  \<^verbatim>\<open>const users = command.text.trim().split(/\s+/);\<close>
  \<^verbatim>\<open>const userIds = users.map(extractUserId).filter(id => id !== null);\<close>
\<close>

definition users :: "jsstring \<Rightarrow> jsstring list" where
  "users txt = split_ws (trim txt)"

definition userIds :: "jsstring \<Rightarrow> jsstring list" where
  "userIds txt = map the (filter (\<lambda>i. i \<noteq> None) (map extractUserId (users txt)))"

text \<open>
  \<^verbatim>\<open>src/unnamed/part_000\<close>:
  \<^verbatim>\<open>const users = (command.text || '').trim().split(/\s+/).filter(Boolean);\<close>
  \<^verbatim>\<open>const userIds = users.map(extractUserId).filter(Boolean);\<close>

  \<^verbatim>\<open>filter(Boolean)\<close> keeps the truthy elements: of strings the non-empty ones, of
  the results of \<open>extractUserId\<close> the non-empty strings (never \<^verbatim>\<open>null\<close>).
\<close>

definition users_sm :: "jsstring \<Rightarrow> jsstring list" where
  "users_sm txt = filter (\<lambda>t. t \<noteq> []) (split_ws (trim txt))"

definition userIds_sm :: "jsstring \<Rightarrow> jsstring list" where
  "userIds_sm txt =
     map the (filter (\<lambda>i. i \<noteq> None \<and> i \<noteq> Some []) (map extractUserId (users_sm txt)))"

subsection \<open>Data of the platform\<close>

text \<open>
  Fields are optional (\<open>option\<close>, \<open>None\<close> for \<^verbatim>\<open>undefined\<close>) where one of the two
  files guards against their absence: \<^verbatim>\<open>command.text\<close>, \<^verbatim>\<open>real_name\<close>,
  \<^verbatim>\<open>channels\<close>, \<^verbatim>\<open>response_metadata\<close>, \<^verbatim>\<open>next_cursor\<close>. The other fields the
  code reads (\<^verbatim>\<open>response.user\<close>, \<^verbatim>\<open>id\<close> and \<^verbatim>\<open>name\<close> of a user and of a
  channel) are present in every successful response of the platform.
\<close>

record user =
  id_u :: jsstring
  real_name :: "jsstring option"
  name_u :: jsstring

record channel =
  id_c :: jsstring
  name_c :: jsstring

record metadata =
  next_cursor :: "jsstring option"

record page =
  channels :: "channel list option"
  response_metadata :: "metadata option"

text \<open>
  A failed remote call rejects with an error carrying a message; reading a property of
  \<^verbatim>\<open>undefined\<close> throws a \<^verbatim>\<open>TypeError\<close>, whose message is the engine's (V8's wording
  is used).
\<close>

datatype error = ApiError jsstring | TypeError jsstring

fun message :: "error \<Rightarrow> jsstring" where
  "message (ApiError m) = m"
| "message (TypeError m) = m"

definition undefined_property :: "string \<Rightarrow> error" where
  "undefined_property p =
     TypeError (utf16 ''Cannot read properties of undefined (reading '' @ [0x27] @ utf16 p @ [0x27] @ utf16 '')'')"

text \<open>
  The remote platform, \<^verbatim>\<open>app.client\<close>: \<^verbatim>\<open>users.info({ user })\<close> resolves to
  \<^verbatim>\<open>response.user\<close> or rejects; \<^verbatim>\<open>users.conversations({ user, types, limit, cursor })\<close>
  resolves to one page or rejects. \<^verbatim>\<open>types\<close> and \<^verbatim>\<open>limit\<close> are the same constants in
  every request. The cursor of a request is \<open>None\<close> for \<^verbatim>\<open>null\<close> and \<^verbatim>\<open>undefined\<close>.
  A response depends on the request only.
\<close>

record upstream =
  users_info :: "jsstring \<Rightarrow> error + user"
  users_conversations :: "jsstring \<Rightarrow> jsstring option \<Rightarrow> error + page"

text \<open>
  What a handler sends: a message with optional Block Kit blocks and a text. Every block
  of the source is a section with \<^verbatim>\<open>mrkdwn\<close> text, or a divider.
\<close>

datatype block = Section jsstring | Divider

record say_arg =
  blocks :: "block list option"
  say_text :: jsstring

text \<open>
  The observable effects of one invocation, in order, up to the moment the handler
  completes: the acknowledgment, the remote requests (each where it is issued), the error
  log, the messages sent with \<^verbatim>\<open>say\<close>. \<^verbatim>\<open>ack\<close> and \<^verbatim>\<open>say\<close> are taken to succeed.
\<close>

datatype event =
    Ack
  | UsersInfo jsstring
  | UsersConversations jsstring "jsstring option"
  | ConsoleError error
  | Say say_arg

text \<open>
  An awaited computation has returned, has thrown, or is still awaiting a response when
  the fuel (the number of page requests a loop may issue) is used up.
\<close>

datatype 'a outcome = Returned 'a | Threw error | Awaiting

text \<open>
  A handler has completed, or has not within the fuel; \<open>Unfinished\<close> comes with the
  effects so far.
\<close>

datatype status = Completed | Unfinished

text \<open>Truthiness of a value that is a string, \<^verbatim>\<open>null\<close> or \<^verbatim>\<open>undefined\<close>.\<close>

fun truthy :: "jsstring option \<Rightarrow> bool" where
  "truthy None = False"
| "truthy (Some s) = (s \<noteq> [])"

text \<open>\<^verbatim>\<open>x || ''\<close> for a value that is a string or \<^verbatim>\<open>undefined\<close>.\<close>

fun or_empty :: "jsstring option \<Rightarrow> jsstring" where
  "or_empty None = []"
| "or_empty (Some s) = (if s \<noteq> [] then s else [])"

text \<open>A value that is a string or \<^verbatim>\<open>undefined\<close>, inside a template literal.\<close>

fun template :: "jsstring option \<Rightarrow> jsstring" where
  "template None = utf16 ''undefined''"
| "template (Some s) = s"

text \<open>
  \<^verbatim>\<open>Promise.all\<close> over promises created in list order. All requests are issued; the
  responses are taken to arrive in the order of the requests, so the rejection reported
  is that of the first failing one.
\<close>

fun promise_all :: "(error + 'a) list \<Rightarrow> error + 'a list" where
  "promise_all [] = Inr []"
| "promise_all (Inl e # rs) = Inl e"
| "promise_all (Inr x # rs) = (case promise_all rs of Inl e \<Rightarrow> Inl e | Inr xs \<Rightarrow> Inr (x # xs))"

text \<open>
  Two lists taken in turn, the first list's element first; when one list has ended the
  rest of the other follows.
\<close>

fun interleave :: "'a list \<Rightarrow> 'a list \<Rightarrow> 'a list" where
  "interleave [] ys = ys"
| "interleave (x # xs) [] = x # xs"
| "interleave (x # xs) (y # ys) = x # y # interleave xs ys"

text \<open>
  \<^verbatim>\<open>Promise.all\<close> of the two pagination loops. Each argument is the outcome of a loop
  with the page requests it makes. The loops run concurrently: both issue their first
  request before any answer arrives, and each issues its next request when its previous
  one is answered. The answers are taken to arrive in the order of the requests, as for
  the lookups. So the requests are issued in turn, the first loop's first, as long as
  both loops run, and a request is listed where it is issued.

  \<^verbatim>\<open>Promise.all\<close> rejects with the failure that is answered first, also while the other
  loop is still running, and the handler goes on at once: the trace holds the requests
  issued until then, and what the other loop does afterwards in the background is not
  part of it. When the first loop fails at its \<open>k\<close>-th request before the second loop has
  failed, the second loop has issued its first \<open>k\<close> requests (as far as it has that
  many). When the second loop fails at its \<open>j\<close>-th request before the first loop has
  failed, the first loop has issued its first \<open>j + 1\<close> requests: its \<open>j\<close>-th request
  was answered before, and the next one issued. When the fuel of the first loop does not
  reach that request, the failure of the second loop is not yet answered and
  \<^verbatim>\<open>Promise.all\<close> is pending. \<^verbatim>\<open>Promise.all\<close> resolves when both loops have returned,
  and is pending while a loop awaits an answer and no failure has been answered.
\<close>

definition promise_all2 ::
  "'a outcome \<times> event list \<Rightarrow> 'b outcome \<times> event list \<Rightarrow> ('a \<times> 'b) outcome \<times> event list" where
  "promise_all2 p1 p2 =
     (case p1 of (r1, t1) \<Rightarrow> case p2 of (r2, t2) \<Rightarrow>
        (case r1 of
           Threw e1 \<Rightarrow>
             (case r2 of
                Threw e2 \<Rightarrow>
                  if length t1 \<le> length t2
                  then (Threw e1, interleave t1 (take (length t1) t2))
                  else (Threw e2, interleave (take (Suc (length t2)) t1) t2)
              | Returned b \<Rightarrow> (Threw e1, interleave t1 (take (length t1) t2))
              | Awaiting \<Rightarrow> (Threw e1, interleave t1 (take (length t1) t2)))
         | Returned a \<Rightarrow>
             (case r2 of
                Threw e2 \<Rightarrow> (Threw e2, interleave (take (Suc (length t2)) t1) t2)
              | Returned b \<Rightarrow> (Returned (a, b), interleave t1 t2)
              | Awaiting \<Rightarrow> (Awaiting, interleave t1 t2))
         | Awaiting \<Rightarrow>
             (case r2 of
                Threw e2 \<Rightarrow>
                  if length t2 < length t1
                  then (Threw e2, interleave (take (Suc (length t2)) t1) t2)
                  else (Awaiting, interleave t1 t2)
              | Returned b \<Rightarrow> (Awaiting, interleave t1 t2)
              | Awaiting \<Rightarrow> (Awaiting, interleave t1 t2))))"

subsection \<open>fetchUserChannels\<close>

text \<open>
  \<^verbatim>\<open>src/app.js\<close>:
  \<^verbatim>\<open>let allChannels = []; let cursor = null;\<close>
  \<^verbatim>\<open>do { const result = await app.client.users.conversations({..., cursor: cursor});\<close>
  \<^verbatim>\<open>     allChannels = allChannels.concat(result.channels);\<close>
  \<^verbatim>\<open>     cursor = result.response_metadata ? result.response_metadata.next_cursor : null;\<close>
  \<^verbatim>\<open>} while (cursor); return allChannels;\<close>

  \<^verbatim>\<open>concat(undefined)\<close> appends the one element \<^verbatim>\<open>undefined\<close>, so the elements of
  \<open>allChannels\<close> are optional. The result comes with the requests issued.
\<close>

fun fetch_loop ::
  "nat \<Rightarrow> upstream \<Rightarrow> jsstring \<Rightarrow> channel option list \<Rightarrow> jsstring option \<Rightarrow>
   channel option list outcome \<times> event list" where
  "fetch_loop 0 up userId allChannels cursor = (Awaiting, [])"
| "fetch_loop (Suc fuel) up userId allChannels cursor =
     (case users_conversations up userId cursor of
        Inl e \<Rightarrow> (Threw e, [UsersConversations userId cursor])
      | Inr result \<Rightarrow>
          (let allChannels' = allChannels @
                 (case channels result of None \<Rightarrow> [None] | Some cs \<Rightarrow> map Some cs);
               cursor' = (case response_metadata result of
                            Some m \<Rightarrow> next_cursor m | None \<Rightarrow> None)
           in if truthy cursor' then
                (case fetch_loop fuel up userId allChannels' cursor' of
                   (r, t) \<Rightarrow> (r, UsersConversations userId cursor # t))
              else (Returned allChannels', [UsersConversations userId cursor])))"

definition fetchUserChannels ::
  "nat \<Rightarrow> upstream \<Rightarrow> jsstring \<Rightarrow> channel option list outcome \<times> event list" where
  "fetchUserChannels fuel up userId = fetch_loop fuel up userId [] None"

text \<open>
  \<^verbatim>\<open>src/unnamed/part_000\<close>:
  \<^verbatim>\<open>let all = []; let cursor;\<close>
  \<^verbatim>\<open>do { const res = await app.client.users.conversations({..., cursor});\<close>
  \<^verbatim>\<open>     all = all.concat(res.channels || []);\<close>
  \<^verbatim>\<open>     cursor = res.response_metadata?.next_cursor || null;\<close>
  \<^verbatim>\<open>} while (cursor); return all;\<close>
\<close>

fun fetch_loop_sm ::
  "nat \<Rightarrow> upstream \<Rightarrow> jsstring \<Rightarrow> channel list \<Rightarrow> jsstring option \<Rightarrow>
   channel list outcome \<times> event list" where
  "fetch_loop_sm 0 up userId all cursor = (Awaiting, [])"
| "fetch_loop_sm (Suc fuel) up userId all cursor =
     (case users_conversations up userId cursor of
        Inl e \<Rightarrow> (Threw e, [UsersConversations userId cursor])
      | Inr res \<Rightarrow>
          (let all' = all @ (case channels res of None \<Rightarrow> [] | Some cs \<Rightarrow> cs);
               next = (case response_metadata res of Some m \<Rightarrow> next_cursor m | None \<Rightarrow> None);
               cursor' = (if truthy next then next else None)
           in if truthy cursor' then
                (case fetch_loop_sm fuel up userId all' cursor' of
                   (r, t) \<Rightarrow> (r, UsersConversations userId cursor # t))
              else (Returned all', [UsersConversations userId cursor])))"

definition fetchUserChannels_sm ::
  "nat \<Rightarrow> upstream \<Rightarrow> jsstring \<Rightarrow> channel list outcome \<times> event list" where
  "fetchUserChannels_sm fuel up userId = fetch_loop_sm fuel up userId [] None"

subsection \<open>The comparison of two users\<close>

text \<open>
  \<^verbatim>\<open>src/app.js\<close>:
  \<^verbatim>\<open>const channels1Ids = new Set(channels1.map(c => c.id));\<close>
  \<^verbatim>\<open>const channels2Ids = new Set(channels2.map(c => c.id));\<close>
  \<^verbatim>\<open>const sharedChannels = channels1.filter(c => channels2Ids.has(c.id));\<close>
  \<^verbatim>\<open>const user1UniqueChannels = channels1.filter(c => !channels2Ids.has(c.id));\<close>
  \<^verbatim>\<open>const user2UniqueChannels = channels2.filter(c => !channels1Ids.has(c.id));\<close>
\<close>

definition sharedChannels :: "channel list \<Rightarrow> channel list \<Rightarrow> channel list" where
  "sharedChannels channels1 channels2 =
     (let channels2Ids = set (map id_c channels2)
      in filter (\<lambda>c. id_c c \<in> channels2Ids) channels1)"

definition user1UniqueChannels :: "channel list \<Rightarrow> channel list \<Rightarrow> channel list" where
  "user1UniqueChannels channels1 channels2 =
     (let channels2Ids = set (map id_c channels2)
      in filter (\<lambda>c. \<not> id_c c \<in> channels2Ids) channels1)"

definition user2UniqueChannels :: "channel list \<Rightarrow> channel list \<Rightarrow> channel list" where
  "user2UniqueChannels channels1 channels2 =
     (let channels1Ids = set (map id_c channels1)
      in filter (\<lambda>c. \<not> id_c c \<in> channels1Ids) channels2)"

text \<open>
  \<^verbatim>\<open>src/unnamed/part_000\<close>:
  \<^verbatim>\<open>const s1 = new Set(c1.map(c => c.id)); const s2 = new Set(c2.map(c => c.id));\<close>
  \<^verbatim>\<open>const shared = c1.filter(c => s2.has(c.id));\<close>
  \<^verbatim>\<open>const u1Only = c1.filter(c => !s2.has(c.id));\<close>
  \<^verbatim>\<open>const u2Only = c2.filter(c => !s1.has(c.id));\<close>
\<close>

definition shared :: "channel list \<Rightarrow> channel list \<Rightarrow> channel list" where
  "shared c1 c2 = (let s2 = set (map id_c c2) in filter (\<lambda>c. id_c c \<in> s2) c1)"

definition u1Only :: "channel list \<Rightarrow> channel list \<Rightarrow> channel list" where
  "u1Only c1 c2 = (let s2 = set (map id_c c2) in filter (\<lambda>c. \<not> id_c c \<in> s2) c1)"

definition u2Only :: "channel list \<Rightarrow> channel list \<Rightarrow> channel list" where
  "u2Only c1 c2 = (let s1 = set (map id_c c1) in filter (\<lambda>c. \<not> id_c c \<in> s1) c2)"

subsection \<open>The messages of src/app.js\<close>

definition usage_hint :: say_arg where
  "usage_hint =
     \<lparr>blocks = Some [Section (utf16
        ''Please specify one or two users to get their channel list. \<newline>\<newline>*Usage:* `/channel-list @user1 [@user2]`'')],
      say_text = utf16
        ''Please specify one or two users to get their channel list. Usage: /channel-list @user1 [@user2]''\<rparr>"

definition max_two_users :: say_arg where
  "max_two_users =
     \<lparr>blocks = Some [Section (utf16
        ''This command supports a maximum of two users. \<newline>\<newline>*Usage:* `/channel-list @user1 [@user2]`'')],
      say_text = utf16 ''This command supports a maximum of two users.''\<rparr>"

definition error_message :: "error \<Rightarrow> say_arg" where
  "error_message e =
     \<lparr>blocks = None,
      say_text = utf16
        ''An error occurred while processing your request. Please check the permissions and try again. Error: ''
        @ message e\<rparr>"

text \<open>The \<^verbatim>\<open>catch\<close> block: the error is logged and reported.\<close>

definition catch_error :: "error \<Rightarrow> event list" where
  "catch_error e = [ConsoleError e, Say (error_message e)]"

text \<open>Scenario 1, one user: \<^verbatim>\<open>channels.map(c => `- #${c.name}`).join('\n')\<close>.\<close>

definition channelList :: "channel list \<Rightarrow> jsstring" where
  "channelList chs = join (utf16 ''\<newline>'') (map (\<lambda>c. utf16 ''- #'' @ name_c c) chs)"

definition one_user_message :: "user \<Rightarrow> channel list \<Rightarrow> say_arg" where
  "one_user_message user1Info chs =
     \<lparr>blocks = Some [Section
        (utf16 ''*Here is the list of channels for '' @ template (real_name user1Info)
         @ utf16 '':*\<newline>\<newline>Total Channels: '' @ decimal (length chs)
         @ utf16 ''\<newline>\<newline>'' @ channelList chs)],
      say_text = utf16 ''Channel list for '' @ template (real_name user1Info) @ utf16 ''.''\<rparr>"

text \<open>Scenario 2, two users.\<close>

definition getChannelText :: "channel \<Rightarrow> jsstring" where
  "getChannelText c =
     (let link = utf16 ''<#'' @ id_c c @ utf16 ''|'' @ name_c c @ utf16 ''>''
      in utf16 ''- '' @ link)"

definition sharedChannelList :: "channel list \<Rightarrow> jsstring" where
  "sharedChannelList chs =
     (if length chs > 0 then join (utf16 ''\<newline>'') (map getChannelText chs)
      else utf16 ''No shared channels found.'')"

text \<open>\<open>user1UniqueList\<close> and \<open>user2UniqueList\<close> of the source, for the user given.\<close>

definition userUniqueList :: "user \<Rightarrow> channel list \<Rightarrow> jsstring" where
  "userUniqueList userInfo chs =
     (if length chs > 0 then join (utf16 ''\<newline>'') (map getChannelText chs)
      else template (real_name userInfo) @ utf16 '' has no unique channels.'')"

definition messageBlocks :: "user \<Rightarrow> user \<Rightarrow> channel list \<Rightarrow> channel list \<Rightarrow> block list" where
  "messageBlocks user1Info user2Info channels1 channels2 =
     (let n1 = template (real_name user1Info); n2 = template (real_name user2Info);
          sh = sharedChannels channels1 channels2;
          un1 = user1UniqueChannels channels1 channels2;
          un2 = user2UniqueChannels channels1 channels2
      in [Section (utf16 ''*Channel Membership Report for '' @ n1 @ utf16 '' and '' @ n2 @ utf16 ''*''),
          Divider,
          Section (utf16 ''*Total Channels:* '' @ decimal (length channels1) @ utf16 '' for '' @ n1
                   @ utf16 '', '' @ decimal (length channels2) @ utf16 '' for '' @ n2
                   @ utf16 ''\<newline>*Shared Channels:* '' @ decimal (length sh)
                   @ utf16 ''\<newline>*Unique Channels:* '' @ decimal (length un1) @ utf16 '' for '' @ n1
                   @ utf16 '', '' @ decimal (length un2) @ utf16 '' for '' @ n2),
          Divider,
          Section (utf16 ''*Shared Channels*\<newline>'' @ sharedChannelList sh),
          Section (utf16 ''*Channels Unique to '' @ n1 @ utf16 ''*\<newline>'' @ userUniqueList user1Info un1),
          Section (utf16 ''*Channels Unique to '' @ n2 @ utf16 ''*\<newline>'' @ userUniqueList user2Info un2)])"

definition two_users_message :: "user \<Rightarrow> user \<Rightarrow> channel list \<Rightarrow> channel list \<Rightarrow> say_arg" where
  "two_users_message user1Info user2Info channels1 channels2 =
     \<lparr>blocks = Some (messageBlocks user1Info user2Info channels1 channels2),
      say_text = utf16 ''Channel membership report.''\<rparr>"

subsection \<open>The command handler of src/app.js\<close>

text \<open>
  Scenario 1. \<^verbatim>\<open>channels.map(c => ... c.name ...)\<close> throws at an element that is
  \<^verbatim>\<open>undefined\<close>.
\<close>

definition scenario_one_user :: "nat \<Rightarrow> upstream \<Rightarrow> user \<Rightarrow> status \<times> event list" where
  "scenario_one_user fuel up user1Info =
     (case fetchUserChannels fuel up (id_u user1Info) of
        (Awaiting, t) \<Rightarrow> (Unfinished, t)
      | (Threw e, t) \<Rightarrow> (Completed, t @ catch_error e)
      | (Returned chs, t) \<Rightarrow>
          (case those chs of
             None \<Rightarrow> (Completed, t @ catch_error (undefined_property ''name''))
           | Some cs \<Rightarrow> (Completed, t @ [Say (one_user_message user1Info cs)])))"

text \<open>
  Scenario 2:
  \<^verbatim>\<open>await Promise.all([fetchUserChannels(user1Info.id), fetchUserChannels(user2Info.id)])\<close>.
  Then \<^verbatim>\<open>channels1.map(c => c.id)\<close> and \<^verbatim>\<open>channels2.map(c => c.id)\<close> throw at an
  element that is \<^verbatim>\<open>undefined\<close>.
\<close>

definition scenario_two_users :: "nat \<Rightarrow> upstream \<Rightarrow> user \<Rightarrow> user \<Rightarrow> status \<times> event list" where
  "scenario_two_users fuel up user1Info user2Info =
     (case promise_all2 (fetchUserChannels fuel up (id_u user1Info))
                        (fetchUserChannels fuel up (id_u user2Info)) of
        (Awaiting, t) \<Rightarrow> (Unfinished, t)
      | (Threw e, t) \<Rightarrow> (Completed, t @ catch_error e)
      | (Returned (chs1, chs2), t) \<Rightarrow>
          (case (those chs1, those chs2) of
             (Some channels1, Some channels2) \<Rightarrow>
               (Completed, t @ [Say (two_users_message user1Info user2Info channels1 channels2)])
           | _ \<Rightarrow> (Completed, t @ catch_error (undefined_property ''id''))))"

text \<open>
  The handler. \<^verbatim>\<open>command.text.trim()\<close> throws when the text is \<^verbatim>\<open>undefined\<close>. The
  users are looked up before their number is compared with 1 and 2. \<open>userInfo\<close> has
  one element for each id, so \<open>userInfo ! 0\<close> and \<open>userInfo ! 1\<close> are read in range.
\<close>

definition handler :: "nat \<Rightarrow> upstream \<Rightarrow> jsstring option \<Rightarrow> status \<times> event list" where
  "handler fuel up command_text =
     (case command_text of
        None \<Rightarrow> (Completed, Ack # catch_error (undefined_property ''trim''))
      | Some txt \<Rightarrow>
          (let ids = userIds txt
           in if length ids = 0 then (Completed, [Ack, Say usage_hint])
              else
                (case promise_all (map (users_info up) ids) of
                   Inl e \<Rightarrow> (Completed, Ack # map UsersInfo ids @ catch_error e)
                 | Inr userInfo \<Rightarrow>
                     (case
                        (if length ids = 1 then scenario_one_user fuel up (userInfo ! 0)
                         else if length ids = 2 then
                           scenario_two_users fuel up (userInfo ! 0) (userInfo ! 1)
                         else (Completed, [Say max_two_users]))
                      of (st, t) \<Rightarrow> (st, Ack # map UsersInfo ids @ t)))))"

subsection \<open>The messages and the command handler of src/unnamed/part_000\<close>

definition usage_hint_sm :: say_arg where
  "usage_hint_sm =
     \<lparr>blocks = Some [Section (utf16
        ''Please specify *one or two* users.\<newline>\<newline>*Usage:* `/channel-list @user1 [@user2]`'')],
      say_text = utf16 ''Please specify one or two users. Usage: /channel-list @user1 [@user2]''\<rparr>"

definition error_message_sm :: "error \<Rightarrow> say_arg" where
  "error_message_sm err = \<lparr>blocks = None, say_text = utf16 ''An error occurred: '' @ message err\<rparr>"

definition catch_error_sm :: "error \<Rightarrow> event list" where
  "catch_error_sm err = [ConsoleError err, Say (error_message_sm err)]"

text \<open>\<^verbatim>\<open>u.real_name || u.name\<close>\<close>

definition display_name :: "user \<Rightarrow> jsstring" where
  "display_name u = (if truthy (real_name u) then template (real_name u) else name_u u)"

text \<open>\<^verbatim>\<open>- <#${c.id}|${c.name}>\<close>\<close>

definition link :: "channel \<Rightarrow> jsstring" where
  "link c = utf16 ''- <#'' @ id_c c @ utf16 ''|'' @ name_c c @ utf16 ''>''"

text \<open>\<^verbatim>\<open>xs.length ? xs.map(link).join('\n') : placeholder\<close>\<close>

definition links_or :: "jsstring \<Rightarrow> channel list \<Rightarrow> jsstring" where
  "links_or placeholder xs =
     (if length xs \<noteq> 0 then join (utf16 ''\<newline>'') (map link xs) else placeholder)"

text \<open>
  One user: \<^verbatim>\<open>list || '_No channels found._'\<close>, where \<open>list\<close> is the joined links;
  the placeholder is taken when \<open>list\<close> is the empty string.
\<close>

definition one_user_message_sm :: "user \<Rightarrow> channel list \<Rightarrow> say_arg" where
  "one_user_message_sm u1 ch =
     (let list = join (utf16 ''\<newline>'') (map link ch)
      in \<lparr>blocks = Some [Section
             (utf16 ''*Channels for '' @ display_name u1 @ utf16 '':*\<newline>\<newline>*Total:* ''
              @ decimal (length ch) @ utf16 ''\<newline>\<newline>''
              @ (if list \<noteq> [] then list else utf16 ''_No channels found._''))],
          say_text = utf16 ''Channel list for '' @ display_name u1 @ utf16 ''.''\<rparr>)"

definition two_users_message_sm :: "user \<Rightarrow> user \<Rightarrow> channel list \<Rightarrow> channel list \<Rightarrow> say_arg" where
  "two_users_message_sm u1 u2 c1 c2 =
     (let n1 = display_name u1; n2 = display_name u2
      in \<lparr>blocks = Some
            [Section (utf16 ''*Channel Membership Report for '' @ n1 @ utf16 '' and '' @ n2 @ utf16 ''*''),
             Divider,
             Section (utf16 ''*Totals:* '' @ decimal (length c1) @ utf16 '' for '' @ n1 @ utf16 '', ''
                      @ decimal (length c2) @ utf16 '' for '' @ n2
                      @ utf16 ''\<newline>*Shared:* '' @ decimal (length (shared c1 c2))
                      @ utf16 ''\<newline>*Unique:* '' @ decimal (length (u1Only c1 c2)) @ utf16 '' vs ''
                      @ decimal (length (u2Only c1 c2))),
             Divider,
             Section (utf16 ''*Shared Channels*\<newline>''
                      @ links_or (utf16 ''_No shared channels found._'') (shared c1 c2)),
             Section (utf16 ''*Unique to '' @ n1 @ utf16 ''*\<newline>''
                      @ links_or (utf16 ''_'' @ n1 @ utf16 '' has no unique channels._'') (u1Only c1 c2)),
             Section (utf16 ''*Unique to '' @ n2 @ utf16 ''*\<newline>''
                      @ links_or (utf16 ''_'' @ n2 @ utf16 '' has no unique channels._'') (u2Only c1 c2))],
          say_text = utf16 ''Channel membership report.''\<rparr>)"

definition one_user_sm :: "nat \<Rightarrow> upstream \<Rightarrow> user \<Rightarrow> status \<times> event list" where
  "one_user_sm fuel up u1 =
     (case fetchUserChannels_sm fuel up (id_u u1) of
        (Awaiting, t) \<Rightarrow> (Unfinished, t)
      | (Threw e, t) \<Rightarrow> (Completed, t @ catch_error_sm e)
      | (Returned ch, t) \<Rightarrow> (Completed, t @ [Say (one_user_message_sm u1 ch)]))"

text \<open>
  \<^verbatim>\<open>const [c1, c2] = await Promise.all([fetchUserChannels(u1.id), fetchUserChannels(u2.id)]);\<close>
\<close>

definition two_users_sm :: "nat \<Rightarrow> upstream \<Rightarrow> user \<Rightarrow> user \<Rightarrow> status \<times> event list" where
  "two_users_sm fuel up u1 u2 =
     (case promise_all2 (fetchUserChannels_sm fuel up (id_u u1))
                        (fetchUserChannels_sm fuel up (id_u u2)) of
        (Awaiting, t) \<Rightarrow> (Unfinished, t)
      | (Threw e, t) \<Rightarrow> (Completed, t @ catch_error_sm e)
      | (Returned (c1, c2), t) \<Rightarrow> (Completed, t @ [Say (two_users_message_sm u1 u2 c1 c2)]))"

text \<open>
  The handler. \<^verbatim>\<open>(command.text || '')\<close> is the empty string for a text that is
  \<^verbatim>\<open>undefined\<close>. The number of users is checked before any lookup.
\<close>

definition handler_sm :: "nat \<Rightarrow> upstream \<Rightarrow> jsstring option \<Rightarrow> status \<times> event list" where
  "handler_sm fuel up command_text =
     (let ids = userIds_sm (or_empty command_text)
      in if length ids = 0 \<or> length ids > 2 then (Completed, [Ack, Say usage_hint_sm])
         else
           (case promise_all (map (users_info up) ids) of
              Inl e \<Rightarrow> (Completed, Ack # map UsersInfo ids @ catch_error_sm e)
            | Inr userInfo \<Rightarrow>
                (case
                   (if length ids = 1 then one_user_sm fuel up (userInfo ! 0)
                    else two_users_sm fuel up (userInfo ! 0) (userInfo ! 1))
                 of (st, t) \<Rightarrow> (st, Ack # map UsersInfo ids @ t))))"

subsection \<open>Observations on a trace\<close>

text \<open>The messages sent with \<^verbatim>\<open>say\<close>, in order.\<close>

fun says :: "event list \<Rightarrow> say_arg list" where
  "says [] = []"
| "says (Say a # t) = a # says t"
| "says (Ack # t) = says t"
| "says (UsersInfo i # t) = says t"
| "says (UsersConversations u c # t) = says t"
| "says (ConsoleError e # t) = says t"

text \<open>The remote requests: user lookups and channel page requests.\<close>

fun is_remote :: "event \<Rightarrow> bool" where
  "is_remote (UsersInfo i) = True"
| "is_remote (UsersConversations u c) = True"
| "is_remote Ack = False"
| "is_remote (ConsoleError e) = False"
| "is_remote (Say a) = False"

text \<open>The errors of the remote requests of a trace that the platform rejects, in order.\<close>

fun failure :: "upstream \<Rightarrow> event \<Rightarrow> error list" where
  "failure up (UsersInfo i) = (case users_info up i of Inl e \<Rightarrow> [e] | Inr u \<Rightarrow> [])"
| "failure up (UsersConversations u c) =
     (case users_conversations up u c of Inl e \<Rightarrow> [e] | Inr p \<Rightarrow> [])"
| "failure up Ack = []"
| "failure up (ConsoleError e) = []"
| "failure up (Say a) = []"

definition failures :: "upstream \<Rightarrow> event list \<Rightarrow> error list" where
  "failures up t = concat (map (failure up) t)"

text \<open>
  The outcome of a pagination loop and its page requests, as they go together: the trace
  holds remote requests only, and a failed one exactly when the loop has thrown, as its
  last request.
\<close>

definition loop_result :: "upstream \<Rightarrow> 'a outcome \<times> event list \<Rightarrow> bool" where
  "loop_result up p \<longleftrightarrow>
     list_all is_remote (snd p) \<and> failures up (butlast (snd p)) = [] \<and>
     failures up (snd p) = (case fst p of Threw e \<Rightarrow> [e] | Returned a \<Rightarrow> [] | Awaiting \<Rightarrow> [])"

subsection \<open>Pages of a well-behaved platform\<close>

text \<open>The non-empty next cursor that a page carries, if any.\<close>

definition page_cursor :: "page \<Rightarrow> jsstring option" where
  "page_cursor p =
     (case response_metadata p of
        None \<Rightarrow> None
      | Some m \<Rightarrow> (case next_cursor m of None \<Rightarrow> None | Some c \<Rightarrow> if c = [] then None else Some c))"

text \<open>The channels of a page; none when the field is absent.\<close>

definition page_channels :: "page \<Rightarrow> channel list" where
  "page_channels p = (case channels p of None \<Rightarrow> [] | Some cs \<Rightarrow> cs)"

text \<open>
  \<open>serves up u cur ps\<close>: asked for the channels of user \<open>u\<close> from cursor \<open>cur\<close> on, the
  platform answers with the pages \<open>ps\<close>, one request each: every page but the last
  carries a non-empty next cursor, under which the next page is served, and the last
  page carries none.
\<close>

fun serves :: "upstream \<Rightarrow> jsstring \<Rightarrow> jsstring option \<Rightarrow> page list \<Rightarrow> bool" where
  "serves up u cur [] = False"
| "serves up u cur [p] = (users_conversations up u cur = Inr p \<and> page_cursor p = None)"
| "serves up u cur (p # q # ps) =
     (users_conversations up u cur = Inr p \<and> page_cursor p \<noteq> None \<and>
      serves up u (page_cursor p) (q # ps))"

text \<open>The requests that fetch the pages \<open>ps\<close>, the first with cursor \<open>cur\<close>.\<close>

fun requests :: "jsstring \<Rightarrow> jsstring option \<Rightarrow> page list \<Rightarrow> event list" where
  "requests u cur [] = []"
| "requests u cur (p # ps) = UsersConversations u cur # requests u (page_cursor p) ps"

text \<open>
  \<open>more_pages up u cur k\<close>: from cursor \<open>cur\<close> on, each of the first \<open>k\<close> page requests
  for user \<open>u\<close> is answered with a page that carries a non-empty next cursor.
\<close>

fun more_pages :: "upstream \<Rightarrow> jsstring \<Rightarrow> jsstring option \<Rightarrow> nat \<Rightarrow> bool" where
  "more_pages up u cur 0 = True"
| "more_pages up u cur (Suc k) =
     (case users_conversations up u cur of
        Inl e \<Rightarrow> False
      | Inr p \<Rightarrow> (case page_cursor p of None \<Rightarrow> False | Some c \<Rightarrow> more_pages up u (Some c) k))"

text \<open>
  \<open>page_failure up u cur k\<close>: from cursor \<open>cur\<close> on, one of the first \<open>k\<close> page
  requests for user \<open>u\<close> fails, the requests before it being answered with pages that
  carry a non-empty next cursor.
\<close>

fun page_failure :: "upstream \<Rightarrow> jsstring \<Rightarrow> jsstring option \<Rightarrow> nat \<Rightarrow> bool" where
  "page_failure up u cur 0 = False"
| "page_failure up u cur (Suc k) =
     (case users_conversations up u cur of
        Inl e \<Rightarrow> True
      | Inr p \<Rightarrow> (case page_cursor p of None \<Rightarrow> False | Some c \<Rightarrow> page_failure up u (Some c) k))"

text \<open>
  \<open>still_fetching fuel up us\<close>: with \<open>fuel\<close> page requests for each of the resolved
  users \<open>us\<close>, a pagination loop is left awaiting a page while no failure of the other
  loop has been answered. With one user, the pagination of that user has not ended. With
  two users, either the pagination of the first has not ended and that of the second has
  not failed within \<open>fuel - 1\<close> requests (the first loop issues its next request before
  the second loop's request of the same rank is answered), or the pagination of the
  second has not ended and that of the first has not failed. With no user or more than
  two, no page is fetched.
\<close>

definition still_fetching :: "nat \<Rightarrow> upstream \<Rightarrow> user list \<Rightarrow> bool" where
  "still_fetching fuel up us =
     (case us of
        [u] \<Rightarrow> more_pages up (id_u u) None fuel
      | [u1, u2] \<Rightarrow>
          (more_pages up (id_u u1) None fuel \<and> \<not> page_failure up (id_u u2) None (fuel - 1)) \<or>
          (more_pages up (id_u u2) None fuel \<and> \<not> page_failure up (id_u u1) None fuel)
      | _ \<Rightarrow> False)"

text \<open>
  What \<^verbatim>\<open>allChannels.concat(result.channels)\<close> of \<^verbatim>\<open>src/app.js\<close> appends for a page:
  its channels, or the one element \<^verbatim>\<open>undefined\<close> when the field is absent.
\<close>

definition page_elements :: "page \<Rightarrow> channel option list" where
  "page_elements p = (case channels p of None \<Rightarrow> [None] | Some cs \<Rightarrow> map Some cs)"

subsection \<open>The itemized list of a report, as specified\<close>

text \<open>
  A channel as a link-style reference made of its id and its name; an itemized list with
  one line per channel, in order, and the placeholder for a list without entries.
\<close>

definition channel_link :: "channel \<Rightarrow> jsstring" where
  "channel_link c = utf16 ''<#'' @ id_c c @ utf16 ''|'' @ name_c c @ utf16 ''>''"

definition itemized :: "jsstring \<Rightarrow> channel list \<Rightarrow> jsstring" where
  "itemized placeholder chs =
     (if chs = [] then placeholder
      else join (utf16 ''\<newline>'') (map (\<lambda>c. utf16 ''- '' @ channel_link c) chs))"

subsection \<open>The input parser, as specified\<close>

text \<open>
  The tokens of a text: it is split on white space and empty tokens are discarded. The
  text is read one code unit at a time; \<open>tok\<close> is the token read so far.
\<close>

fun spec_tokens_from :: "jsstring \<Rightarrow> jsstring \<Rightarrow> jsstring list" where
  "spec_tokens_from tok [] = (if tok = [] then [] else [tok])"
| "spec_tokens_from tok (c # cs) =
     (if isSpace c then (if tok = [] then [] else [tok]) @ spec_tokens_from [] cs
      else spec_tokens_from (tok @ [c]) cs)"

definition spec_tokens :: "jsstring \<Rightarrow> jsstring list" where
  "spec_tokens s = spec_tokens_from [] s"

text \<open>
  The mention pattern: an opening angle bracket, \<^verbatim>\<open>@\<close>, an id of one or more upper-case
  letters and digits, a closing angle bracket.
\<close>

definition mention :: "jsstring \<Rightarrow> jsstring" where
  "mention i = utf16 ''<@'' @ i @ utf16 ''>''"

definition valid_id :: "jsstring \<Rightarrow> bool" where
  "valid_id i \<longleftrightarrow> i \<noteq> [] \<and> list_all isIdChar i"

text \<open>The pattern with id \<open>i\<close> occurs in the token \<open>t\<close> at position \<open>k\<close>.\<close>

definition occurs_at :: "jsstring \<Rightarrow> nat \<Rightarrow> jsstring \<Rightarrow> bool" where
  "occurs_at t k i \<longleftrightarrow> valid_id i \<and> k \<le> length t \<and> (\<exists>post. drop k t = mention i @ post)"

text \<open>The token contains the pattern; \<open>i\<close> is the id of its first occurrence.\<close>

definition has_mention :: "jsstring \<Rightarrow> bool" where
  "has_mention t \<longleftrightarrow> (\<exists>k i. occurs_at t k i)"

definition first_mention :: "jsstring \<Rightarrow> jsstring \<Rightarrow> bool" where
  "first_mention t i \<longleftrightarrow> (\<exists>k. occurs_at t k i \<and> (\<forall>j i'. j < k \<longrightarrow> \<not> occurs_at t j i'))"

subsection \<open>Example data\<close>

text \<open>The channels of the specification's scenarios.\<close>

definition general :: channel where
  "general = \<lparr>id_c = utf16 ''C1'', name_c = utf16 ''general''\<rparr>"

definition eng :: channel where
  "eng = \<lparr>id_c = utf16 ''C2'', name_c = utf16 ''eng''\<rparr>"

definition random :: channel where
  "random = \<lparr>id_c = utf16 ''C3'', name_c = utf16 ''random''\<rparr>"

text \<open>
  The directory of the specification's scenarios: Alice (U111) is in \<open>general\<close> and
  \<open>eng\<close>, served in two pages; Bob (U222) is in \<open>eng\<close> and \<open>random\<close>; U333 is in no
  channel; the channels of U444 may not be listed; the second page of U555 fails; U999
  is unknown.
\<close>

definition alice_page1 :: page where
  "alice_page1 = \<lparr>channels = Some [general], response_metadata = Some \<lparr>next_cursor = Some (utf16 ''p2'')\<rparr>\<rparr>"

definition alice_page2 :: page where
  "alice_page2 = \<lparr>channels = Some [eng], response_metadata = Some \<lparr>next_cursor = Some []\<rparr>\<rparr>"

definition bob_page :: page where
  "bob_page = \<lparr>channels = Some [eng, random], response_metadata = None\<rparr>"

definition empty_page :: page where
  "empty_page = \<lparr>channels = Some [], response_metadata = Some \<lparr>next_cursor = None\<rparr>\<rparr>"

definition directory :: upstream where
  "directory =
     \<lparr>users_info = (\<lambda>i.
        if i = utf16 ''U111'' then Inr \<lparr>id_u = i, real_name = Some (utf16 ''Alice''), name_u = utf16 ''alice''\<rparr>
        else if i = utf16 ''U222'' then Inr \<lparr>id_u = i, real_name = Some (utf16 ''Bob''), name_u = utf16 ''bob''\<rparr>
        else if i = utf16 ''U333'' then Inr \<lparr>id_u = i, real_name = None, name_u = utf16 ''carol''\<rparr>
        else if i = utf16 ''U444'' then Inr \<lparr>id_u = i, real_name = Some [], name_u = utf16 ''dave''\<rparr>
        else if i = utf16 ''U555'' then Inr \<lparr>id_u = i, real_name = Some (utf16 ''Erin''), name_u = utf16 ''erin''\<rparr>
        else Inl (ApiError (utf16 ''user_not_found''))),
      users_conversations = (\<lambda>u cur.
        if u = utf16 ''U111'' then (if cur = None then Inr alice_page1 else Inr alice_page2)
        else if u = utf16 ''U222'' then Inr bob_page
        else if u = utf16 ''U333'' then Inr empty_page
        else if u = utf16 ''U444'' then Inl (ApiError (utf16 ''missing_scope''))
        else if u = utf16 ''U555'' then
          (if cur = None then Inr alice_page1 else Inl (ApiError (utf16 ''late_failure'')))
        else Inl (ApiError (utf16 ''user_not_found'')))\<rparr>"

text \<open>The users of the directory.\<close>

definition alice :: user where
  "alice = \<lparr>id_u = utf16 ''U111'', real_name = Some (utf16 ''Alice''), name_u = utf16 ''alice''\<rparr>"

definition bob :: user where
  "bob = \<lparr>id_u = utf16 ''U222'', real_name = Some (utf16 ''Bob''), name_u = utf16 ''bob''\<rparr>"

definition carol :: user where
  "carol = \<lparr>id_u = utf16 ''U333'', real_name = None, name_u = utf16 ''carol''\<rparr>"

definition dave :: user where
  "dave = \<lparr>id_u = utf16 ''U444'', real_name = Some [], name_u = utf16 ''dave''\<rparr>"

definition erin :: user where
  "erin = \<lparr>id_u = utf16 ''U555'', real_name = Some (utf16 ''Erin''), name_u = utf16 ''erin''\<rparr>"

text \<open>A platform that answers every page request with the same non-empty cursor.\<close>

definition repeating :: upstream where
  "repeating =
     \<lparr>users_info = (\<lambda>i. Inr \<lparr>id_u = i, real_name = None, name_u = i\<rparr>),
      users_conversations = (\<lambda>u cur.
        Inr \<lparr>channels = Some [general], response_metadata = Some \<lparr>next_cursor = Some (utf16 ''again'')\<rparr>\<rparr>)\<rparr>"

section \<open>Properties\<close>

subsection \<open>The comparison of two channel lists\<close>

lemma comparison_sm_eq:
  "shared c1 c2 = sharedChannels c1 c2"
  "u1Only c1 c2 = user1UniqueChannels c1 c2"
  "u2Only c1 c2 = user2UniqueChannels c1 c2"
  by (simp_all add: shared_def u1Only_def u2Only_def sharedChannels_def
      user1UniqueChannels_def user2UniqueChannels_def)

lemma set_sharedChannels:
  "set (sharedChannels c1 c2) = {c \<in> set c1. id_c c \<in> id_c ` set c2}"
  by (auto simp: sharedChannels_def)

lemma set_user1UniqueChannels:
  "set (user1UniqueChannels c1 c2) = {c \<in> set c1. id_c c \<notin> id_c ` set c2}"
  by (auto simp: user1UniqueChannels_def)

lemma set_user2UniqueChannels:
  "set (user2UniqueChannels c1 c2) = {c \<in> set c2. id_c c \<notin> id_c ` set c1}"
  by (auto simp: user2UniqueChannels_def)

lemma ids_sharedChannels:
  "id_c ` set (sharedChannels c1 c2) = id_c ` set c1 \<inter> id_c ` set c2"
  unfolding set_sharedChannels by (rule set_eqI) (auto simp: image_iff)

lemma ids_user1UniqueChannels:
  "id_c ` set (user1UniqueChannels c1 c2) = id_c ` set c1 - id_c ` set c2"
  unfolding set_user1UniqueChannels by (rule set_eqI) (auto simp: image_iff)

lemma ids_user2UniqueChannels:
  "id_c ` set (user2UniqueChannels c1 c2) = id_c ` set c2 - id_c ` set c1"
  unfolding set_user2UniqueChannels by (rule set_eqI) (auto simp: image_iff)

lemma same_names_shared_union:
  assumes "\<forall>a\<in>set c1. \<forall>b\<in>set c2. id_c a = id_c b \<longrightarrow> a = b"
  shows "set (sharedChannels c1 c2) \<union> set (user2UniqueChannels c1 c2) = set c2"
proof (rule set_eqI)
  fix x
  show "x \<in> set (sharedChannels c1 c2) \<union> set (user2UniqueChannels c1 c2) \<longleftrightarrow> x \<in> set c2"
  proof
    assume "x \<in> set (sharedChannels c1 c2) \<union> set (user2UniqueChannels c1 c2)"
    then show "x \<in> set c2"
      using assms by (auto simp: set_sharedChannels set_user2UniqueChannels)
  next
    assume x: "x \<in> set c2"
    show "x \<in> set (sharedChannels c1 c2) \<union> set (user2UniqueChannels c1 c2)"
    proof (cases "id_c x \<in> id_c ` set c1")
      case True
      then obtain a where a: "a \<in> set c1" "id_c a = id_c x" by (auto simp: image_iff)
      with assms x have "a = x" by blast
      with a x show ?thesis by (simp add: set_sharedChannels)
    next
      case False
      with x show ?thesis by (simp add: set_user2UniqueChannels)
    qed
  qed
qed

text \<open>
  Claim C1. For any two fetched channel lists \<open>c1\<close> and \<open>c2\<close>, in both files: the shared
  and the unique-to-first channels together are exactly the channels of \<open>c1\<close>; by channel
  id (the identity of a channel), the shared and the unique-to-second channels together
  are exactly the channels of \<open>c2\<close>, and as records too when the two lists give a
  channel id the same name; no unique-to-first channel has the id of a channel of \<open>c2\<close>;
  the three lists are pairwise disjoint by channel id; each list is a subsequence of the
  list it was filtered from, so the fetch order is kept. Nothing is assumed of the
  lists: they may overlap, be disjoint, identical or empty, and hold duplicates.
\<close>

theorem comparison_invariant:
  "set (sharedChannels c1 c2) \<union> set (user1UniqueChannels c1 c2) = set c1
   \<and> id_c ` set (sharedChannels c1 c2) \<union> id_c ` set (user2UniqueChannels c1 c2) = id_c ` set c2
   \<and> ((\<forall>a\<in>set c1. \<forall>b\<in>set c2. id_c a = id_c b \<longrightarrow> a = b) \<longrightarrow>
        set (sharedChannels c1 c2) \<union> set (user2UniqueChannels c1 c2) = set c2)
   \<and> id_c ` set (user1UniqueChannels c1 c2) \<inter> id_c ` set c2 = {}
   \<and> id_c ` set (sharedChannels c1 c2) \<inter> id_c ` set (user1UniqueChannels c1 c2) = {}
   \<and> id_c ` set (sharedChannels c1 c2) \<inter> id_c ` set (user2UniqueChannels c1 c2) = {}
   \<and> id_c ` set (user1UniqueChannels c1 c2) \<inter> id_c ` set (user2UniqueChannels c1 c2) = {}
   \<and> subseq (sharedChannels c1 c2) c1
   \<and> subseq (user1UniqueChannels c1 c2) c1
   \<and> subseq (user2UniqueChannels c1 c2) c2
   \<and> shared c1 c2 = sharedChannels c1 c2
   \<and> u1Only c1 c2 = user1UniqueChannels c1 c2
   \<and> u2Only c1 c2 = user2UniqueChannels c1 c2"
proof (intro conjI)
  show "set (sharedChannels c1 c2) \<union> set (user1UniqueChannels c1 c2) = set c1"
    unfolding set_sharedChannels set_user1UniqueChannels by blast
  show "id_c ` set (sharedChannels c1 c2) \<union> id_c ` set (user2UniqueChannels c1 c2) = id_c ` set c2"
    unfolding ids_sharedChannels ids_user2UniqueChannels by blast
  show "(\<forall>a\<in>set c1. \<forall>b\<in>set c2. id_c a = id_c b \<longrightarrow> a = b) \<longrightarrow>
        set (sharedChannels c1 c2) \<union> set (user2UniqueChannels c1 c2) = set c2"
    by (rule impI) (rule same_names_shared_union)
  show "id_c ` set (user1UniqueChannels c1 c2) \<inter> id_c ` set c2 = {}"
    unfolding ids_user1UniqueChannels by blast
  show "id_c ` set (sharedChannels c1 c2) \<inter> id_c ` set (user1UniqueChannels c1 c2) = {}"
    unfolding ids_sharedChannels ids_user1UniqueChannels by blast
  show "id_c ` set (sharedChannels c1 c2) \<inter> id_c ` set (user2UniqueChannels c1 c2) = {}"
    unfolding ids_sharedChannels ids_user2UniqueChannels by blast
  show "id_c ` set (user1UniqueChannels c1 c2) \<inter> id_c ` set (user2UniqueChannels c1 c2) = {}"
    unfolding ids_user1UniqueChannels ids_user2UniqueChannels by blast
  show "subseq (sharedChannels c1 c2) c1"
    by (simp add: sharedChannels_def)
  show "subseq (user1UniqueChannels c1 c2) c1"
    by (simp add: user1UniqueChannels_def)
  show "subseq (user2UniqueChannels c1 c2) c2"
    by (simp add: user2UniqueChannels_def)
qed (simp_all add: comparison_sm_eq)

theorem comparison_invariant_witness:
  "set (sharedChannels [general, eng] [eng, random])
     \<union> set (user2UniqueChannels [general, eng] [eng, random]) = set [eng, random]
   \<and> sharedChannels [general, eng] [eng, random] = [eng]
   \<and> user1UniqueChannels [general, eng] [eng, random] = [general]
   \<and> user2UniqueChannels [general, eng] [eng, random] = [random]"
proof -
  have h: "\<forall>a\<in>set [general, eng]. \<forall>b\<in>set [eng, random]. id_c a = id_c b \<longrightarrow> a = b"
    by (simp add: general_def eng_def random_def utf16_def)
  from comparison_invariant [of "[general, eng]" "[eng, random]"]
  have "(\<forall>a\<in>set [general, eng]. \<forall>b\<in>set [eng, random]. id_c a = id_c b \<longrightarrow> a = b) \<longrightarrow>
    set (sharedChannels [general, eng] [eng, random])
       \<union> set (user2UniqueChannels [general, eng] [eng, random]) = set [eng, random]"
    by (elim conjE)
  with h have u: "set (sharedChannels [general, eng] [eng, random])
       \<union> set (user2UniqueChannels [general, eng] [eng, random]) = set [eng, random]"
    by (rule rev_mp)
  have e: "sharedChannels [general, eng] [eng, random] = [eng]"
    "user1UniqueChannels [general, eng] [eng, random] = [general]"
    "user2UniqueChannels [general, eng] [eng, random] = [random]"
    by (simp_all add: sharedChannels_def user1UniqueChannels_def user2UniqueChannels_def
        general_def eng_def random_def utf16_def)
  from u e show ?thesis by (intro conjI)
qed

subsection \<open>Strings\<close>

lemma of_char_word: "unat (of_char x :: 16 word) = (of_char x :: nat)"
proof -
  have "(of_char x :: nat) mod 256 < 256"
    by (rule mod_less_divisor) simp
  then have "(of_char x :: nat) < 256"
    by (simp only: of_char_mod_256)
  then have "(of_char x :: nat) < 65536"
    by linarith
  then have "unat (of_nat (of_char x) :: 16 word) = of_char x"
    by (simp add: unat_of_nat)
  then show ?thesis
    by (simp only: of_nat_of_char)
qed

lemma of_char_word_inj: "inj (of_char :: char \<Rightarrow> 16 word)"
proof (rule injI)
  fix c d :: char
  assume "(of_char c :: 16 word) = of_char d"
  then have "unat (of_char c :: 16 word) = unat (of_char d :: 16 word)"
    by (rule arg_cong)
  then have "(of_char c :: nat) = of_char d"
    by (simp only: of_char_word)
  then show "c = d"
    by (rule of_char_eqI)
qed

lemma utf16_inj [simp]: "utf16 a = utf16 b \<longleftrightarrow> a = b"
  unfolding utf16_def by (rule inj_map_eq_map) (rule of_char_word_inj)

lemma utf16_Nil [simp]: "utf16 s = [] \<longleftrightarrow> s = []" "[] = utf16 s \<longleftrightarrow> s = []"
  by (auto simp: utf16_def)

subsection \<open>Traces\<close>

lemma says_append [simp]: "says (a @ b) = says a @ says b"
  by (induction a rule: says.induct) auto

lemma says_catch_error [simp]: "says (catch_error e) = [error_message e]"
  by (simp add: catch_error_def)

lemma says_catch_error_sm [simp]: "says (catch_error_sm e) = [error_message_sm e]"
  by (simp add: catch_error_sm_def)

lemma says_UsersInfo [simp]: "says (map UsersInfo ids) = []"
  by (induction ids) auto

lemma fetch_loop_requests:
  "fetch_loop fuel up u acc cur = (r, t) \<Longrightarrow> \<forall>ev\<in>set t. \<exists>c. ev = UsersConversations u c"
  by (induction fuel arbitrary: acc cur r t)
    (fastforce simp: Let_def split: sum.splits prod.splits if_splits)+

lemma fetch_loop_sm_requests:
  "fetch_loop_sm fuel up u acc cur = (r, t) \<Longrightarrow> \<forall>ev\<in>set t. \<exists>c. ev = UsersConversations u c"
  by (induction fuel arbitrary: acc cur r t)
    (fastforce simp: Let_def split: sum.splits prod.splits if_splits)+

lemma says_requests: "\<forall>ev\<in>set t. \<exists>c. ev = UsersConversations u c \<Longrightarrow> says t = []"
  by (induction t) auto

lemma says_fetchUserChannels [simp]: "fetchUserChannels fuel up u = (r, t) \<Longrightarrow> says t = []"
  unfolding fetchUserChannels_def by (blast intro: says_requests dest: fetch_loop_requests)

lemma says_fetchUserChannels_sm [simp]: "fetchUserChannels_sm fuel up u = (r, t) \<Longrightarrow> says t = []"
  unfolding fetchUserChannels_sm_def by (blast intro: says_requests dest: fetch_loop_sm_requests)

lemma ack_fetchUserChannels: "fetchUserChannels fuel up u = (r, t) \<Longrightarrow> Ack \<notin> set t"
  unfolding fetchUserChannels_def by (blast dest: fetch_loop_requests)

lemma ack_fetchUserChannels_sm: "fetchUserChannels_sm fuel up u = (r, t) \<Longrightarrow> Ack \<notin> set t"
  unfolding fetchUserChannels_sm_def by (blast dest: fetch_loop_sm_requests)

lemma says_scenario_one_user:
  "scenario_one_user fuel up u = (st, t) \<Longrightarrow>
     (st = Completed \<longrightarrow> length (says t) = 1) \<and> (st = Unfinished \<longrightarrow> says t = [])"
  by (auto simp: scenario_one_user_def split: prod.splits outcome.splits option.splits)

lemma says_one_user_sm:
  "one_user_sm fuel up u = (st, t) \<Longrightarrow>
     (st = Completed \<longrightarrow> length (says t) = 1) \<and> (st = Unfinished \<longrightarrow> says t = [])"
  by (auto simp: one_user_sm_def split: prod.splits outcome.splits option.splits)

lemma length_promise_all: "promise_all rs = Inr xs \<Longrightarrow> length xs = length rs"
  by (induction rs arbitrary: xs rule: promise_all.induct) (auto split: sum.splits)

subsection \<open>The pagination loop\<close>

lemma fetch_loop_fail:
  "users_conversations up u cur = Inl e \<Longrightarrow>
   fetch_loop (Suc n) up u acc cur = (Threw e, [UsersConversations u cur])"
  by simp

lemma fetch_loop_last:
  "users_conversations up u cur = Inr p \<Longrightarrow> page_cursor p = None \<Longrightarrow>
   fetch_loop (Suc n) up u acc cur = (Returned (acc @ page_elements p), [UsersConversations u cur])"
  by (auto simp: page_cursor_def page_elements_def Let_def split: option.splits if_splits)

lemma fetch_loop_more:
  "users_conversations up u cur = Inr p \<Longrightarrow> page_cursor p = Some c \<Longrightarrow>
   fetch_loop (Suc n) up u acc cur =
     (fst (fetch_loop n up u (acc @ page_elements p) (Some c)),
      UsersConversations u cur # snd (fetch_loop n up u (acc @ page_elements p) (Some c)))"
  by (auto simp: page_cursor_def page_elements_def Let_def split: option.splits if_splits prod.splits)

lemma fetch_loop_sm_fail:
  "users_conversations up u cur = Inl e \<Longrightarrow>
   fetch_loop_sm (Suc n) up u acc cur = (Threw e, [UsersConversations u cur])"
  by simp

lemma fetch_loop_sm_last:
  "users_conversations up u cur = Inr p \<Longrightarrow> page_cursor p = None \<Longrightarrow>
   fetch_loop_sm (Suc n) up u acc cur = (Returned (acc @ page_channels p), [UsersConversations u cur])"
  by (auto simp: page_cursor_def page_channels_def Let_def split: option.splits if_splits)

lemma fetch_loop_sm_more:
  "users_conversations up u cur = Inr p \<Longrightarrow> page_cursor p = Some c \<Longrightarrow>
   fetch_loop_sm (Suc n) up u acc cur =
     (fst (fetch_loop_sm n up u (acc @ page_channels p) (Some c)),
      UsersConversations u cur # snd (fetch_loop_sm n up u (acc @ page_channels p) (Some c)))"
  by (auto simp: page_cursor_def page_channels_def Let_def split: option.splits if_splits prod.splits)

lemma length_requests [simp]: "length (requests u cur ps) = length ps"
  by (induction ps arbitrary: cur) auto

lemma fetch_loop_sm_serves:
  "serves up u cur ps \<Longrightarrow> length ps \<le> fuel \<Longrightarrow>
   fetch_loop_sm fuel up u acc cur = (Returned (acc @ concat (map page_channels ps)), requests u cur ps)"
proof (induction up u cur ps arbitrary: fuel acc rule: serves.induct)
  case (1 up u cur)
  then show ?case by simp
next
  case (2 up u cur p)
  then obtain n where "fuel = Suc n" by (cases fuel) auto
  with 2 show ?case
    by (simp add: fetch_loop_sm_last del: fetch_loop_sm.simps)
next
  case (3 up u cur p q ps)
  then obtain n where n: "fuel = Suc n" by (cases fuel) auto
  from 3 obtain c where c: "page_cursor p = Some c" by auto
  from 3 n c have "fetch_loop_sm n up u (acc @ page_channels p) (Some c) =
      (Returned ((acc @ page_channels p) @ concat (map page_channels (q # ps))), requests u (Some c) (q # ps))"
    by simp
  with 3 n c show ?case
    by (simp add: fetch_loop_sm_more del: fetch_loop_sm.simps)
qed

lemma fetch_loop_serves:
  "serves up u cur ps \<Longrightarrow> length ps \<le> fuel \<Longrightarrow>
   fetch_loop fuel up u acc cur = (Returned (acc @ concat (map page_elements ps)), requests u cur ps)"
proof (induction up u cur ps arbitrary: fuel acc rule: serves.induct)
  case (1 up u cur)
  then show ?case by simp
next
  case (2 up u cur p)
  then obtain n where "fuel = Suc n" by (cases fuel) auto
  with 2 show ?case
    by (simp add: fetch_loop_last del: fetch_loop.simps)
next
  case (3 up u cur p q ps)
  then obtain n where n: "fuel = Suc n" by (cases fuel) auto
  from 3 obtain c where c: "page_cursor p = Some c" by auto
  from 3 n c have "fetch_loop n up u (acc @ page_elements p) (Some c) =
      (Returned ((acc @ page_elements p) @ concat (map page_elements (q # ps))), requests u (Some c) (q # ps))"
    by simp
  with 3 n c show ?case
    by (simp add: fetch_loop_more del: fetch_loop.simps)
qed

lemma page_elements_defined:
  "list_all (\<lambda>p. channels p \<noteq> None) ps \<Longrightarrow>
   concat (map page_elements ps) = map Some (concat (map page_channels ps))"
  by (induction ps) (auto simp: page_elements_def page_channels_def)

lemma fetch_loop_more_pages:
  "fst (fetch_loop fuel up u acc cur) = Awaiting \<longleftrightarrow> more_pages up u cur fuel"
proof (induction fuel arbitrary: acc cur)
  case 0
  show ?case by simp
next
  case (Suc n)
  show ?case
  proof (cases "users_conversations up u cur")
    case (Inl e)
    then show ?thesis by simp
  next
    case (Inr p)
    show ?thesis
    proof (cases "page_cursor p")
      case None
      with Inr show ?thesis by (simp add: fetch_loop_last del: fetch_loop.simps)
    next
      case (Some c)
      with Inr Suc [of "acc @ page_elements p" "Some c"] show ?thesis
        by (simp add: fetch_loop_more del: fetch_loop.simps)
    qed
  qed
qed

lemma fetch_loop_sm_more_pages:
  "fst (fetch_loop_sm fuel up u acc cur) = Awaiting \<longleftrightarrow> more_pages up u cur fuel"
proof (induction fuel arbitrary: acc cur)
  case 0
  show ?case by simp
next
  case (Suc n)
  show ?case
  proof (cases "users_conversations up u cur")
    case (Inl e)
    then show ?thesis by simp
  next
    case (Inr p)
    show ?thesis
    proof (cases "page_cursor p")
      case None
      with Inr show ?thesis by (simp add: fetch_loop_sm_last del: fetch_loop_sm.simps)
    next
      case (Some c)
      with Inr Suc [of "acc @ page_channels p" "Some c"] show ?thesis
        by (simp add: fetch_loop_sm_more del: fetch_loop_sm.simps)
    qed
  qed
qed

lemma repeating_more_pages: "more_pages repeating u cur k"
  by (induction k arbitrary: cur) (simp_all add: repeating_def page_cursor_def utf16_def)

subsection \<open>The paths through the handlers\<close>

lemma or_empty_Some [simp]: "or_empty (Some s) = s"
  by simp

declare or_empty.simps(2) [simp del]

lemma handler_cases [consumes 0, case_names NoText Usage LookupFailed One Two Many]:
  obtains
    (NoText) "command_text = None"
      "handler fuel up command_text = (Completed, Ack # catch_error (undefined_property ''trim''))"
  | (Usage) tx where "command_text = Some tx" "userIds tx = []"
      "handler fuel up command_text = (Completed, [Ack, Say usage_hint])"
  | (LookupFailed) tx e where "command_text = Some tx" "userIds tx \<noteq> []"
      "promise_all (map (users_info up) (userIds tx)) = Inl e"
      "handler fuel up command_text = (Completed, Ack # map UsersInfo (userIds tx) @ catch_error e)"
  | (One) tx userInfo st t where "command_text = Some tx" "length (userIds tx) = 1"
      "promise_all (map (users_info up) (userIds tx)) = Inr userInfo"
      "scenario_one_user fuel up (userInfo ! 0) = (st, t)"
      "handler fuel up command_text = (st, Ack # map UsersInfo (userIds tx) @ t)"
  | (Two) tx userInfo st t where "command_text = Some tx" "length (userIds tx) = 2"
      "promise_all (map (users_info up) (userIds tx)) = Inr userInfo"
      "scenario_two_users fuel up (userInfo ! 0) (userInfo ! 1) = (st, t)"
      "handler fuel up command_text = (st, Ack # map UsersInfo (userIds tx) @ t)"
  | (Many) tx userInfo where "command_text = Some tx" "length (userIds tx) > 2"
      "promise_all (map (users_info up) (userIds tx)) = Inr userInfo"
      "handler fuel up command_text =
         (Completed, Ack # map UsersInfo (userIds tx) @ [Say max_two_users])"
proof (cases command_text)
  case None
  then have "handler fuel up command_text =
      (Completed, Ack # catch_error (undefined_property ''trim''))"
    by (simp add: handler_def)
  with None show ?thesis by (rule NoText)
next
  case (Some tx)
  show ?thesis
  proof (cases "userIds tx = []")
    case True
    with Some have "handler fuel up command_text = (Completed, [Ack, Say usage_hint])"
      by (simp add: handler_def)
    with Some True show ?thesis by (rule Usage)
  next
    case ne: False
    show ?thesis
    proof (cases "promise_all (map (users_info up) (userIds tx))")
      case (Inl e)
      with Some ne have "handler fuel up command_text =
          (Completed, Ack # map UsersInfo (userIds tx) @ catch_error e)"
        by (simp add: handler_def Let_def)
      with Some ne Inl show ?thesis by (rule LookupFailed)
    next
      case (Inr userInfo)
      from ne have "0 < length (userIds tx)" by simp
      then have "length (userIds tx) = 1 \<or> length (userIds tx) = 2 \<or> length (userIds tx) > 2"
        by arith
      then consider "length (userIds tx) = 1" | "length (userIds tx) = 2" | "length (userIds tx) > 2"
        by blast
      then show ?thesis
      proof cases
        case 1
        obtain st t where s: "scenario_one_user fuel up (userInfo ! 0) = (st, t)"
          by (cases "scenario_one_user fuel up (userInfo ! 0)")
        with Some ne Inr 1 have "handler fuel up command_text =
            (st, Ack # map UsersInfo (userIds tx) @ t)"
          by (simp add: handler_def Let_def)
        with Some 1 Inr s show ?thesis by (rule One)
      next
        case 2
        obtain st t where s: "scenario_two_users fuel up (userInfo ! 0) (userInfo ! 1) = (st, t)"
          by (cases "scenario_two_users fuel up (userInfo ! 0) (userInfo ! 1)")
        with Some ne Inr 2 have "handler fuel up command_text =
            (st, Ack # map UsersInfo (userIds tx) @ t)"
          by (simp add: handler_def Let_def)
        with Some 2 Inr s show ?thesis by (rule Two)
      next
        case 3
        with Some ne Inr have "handler fuel up command_text =
            (Completed, Ack # map UsersInfo (userIds tx) @ [Say max_two_users])"
          by (simp add: handler_def Let_def)
        with Some 3 Inr show ?thesis by (rule Many)
      qed
    qed
  qed
qed

lemma handler_sm_cases [consumes 0, case_names Usage LookupFailed One Two]:
  obtains
    (Usage) "length (userIds_sm (or_empty command_text)) = 0 \<or> length (userIds_sm (or_empty command_text)) > 2"
      "handler_sm fuel up command_text = (Completed, [Ack, Say usage_hint_sm])"
  | (LookupFailed) e where
      "length (userIds_sm (or_empty command_text)) = 1 \<or> length (userIds_sm (or_empty command_text)) = 2"
      "promise_all (map (users_info up) (userIds_sm (or_empty command_text))) = Inl e"
      "handler_sm fuel up command_text =
         (Completed, Ack # map UsersInfo (userIds_sm (or_empty command_text)) @ catch_error_sm e)"
  | (One) userInfo st t where "length (userIds_sm (or_empty command_text)) = 1"
      "promise_all (map (users_info up) (userIds_sm (or_empty command_text))) = Inr userInfo"
      "one_user_sm fuel up (userInfo ! 0) = (st, t)"
      "handler_sm fuel up command_text =
         (st, Ack # map UsersInfo (userIds_sm (or_empty command_text)) @ t)"
  | (Two) userInfo st t where "length (userIds_sm (or_empty command_text)) = 2"
      "promise_all (map (users_info up) (userIds_sm (or_empty command_text))) = Inr userInfo"
      "two_users_sm fuel up (userInfo ! 0) (userInfo ! 1) = (st, t)"
      "handler_sm fuel up command_text =
         (st, Ack # map UsersInfo (userIds_sm (or_empty command_text)) @ t)"
proof -
  let ?ids = "userIds_sm (or_empty command_text)"
  have "(length ?ids = 0 \<or> length ?ids > 2) \<or> length ?ids = 1 \<or> length ?ids = 2"
    by arith
  then consider "length ?ids = 0 \<or> length ?ids > 2" | "length ?ids = 1" | "length ?ids = 2"
    by blast
  then show ?thesis
  proof cases
    case 1
    then have "handler_sm fuel up command_text = (Completed, [Ack, Say usage_hint_sm])"
      by (auto simp: handler_sm_def Let_def)
    with 1 show ?thesis by (rule Usage)
  next
    case 2
    then have l: "length ?ids = 1 \<or> length ?ids = 2" by simp
    show ?thesis
    proof (cases "promise_all (map (users_info up) ?ids)")
      case (Inl e)
      with 2 have "handler_sm fuel up command_text =
          (Completed, Ack # map UsersInfo ?ids @ catch_error_sm e)"
        by (auto simp: handler_sm_def Let_def)
      with l Inl show ?thesis by (rule LookupFailed)
    next
      case (Inr userInfo)
      obtain st t where s: "one_user_sm fuel up (userInfo ! 0) = (st, t)"
        by (cases "one_user_sm fuel up (userInfo ! 0)")
      with 2 Inr have "handler_sm fuel up command_text = (st, Ack # map UsersInfo ?ids @ t)"
        by (auto simp: handler_sm_def Let_def)
      with 2 Inr s show ?thesis by (rule One)
    qed
  next
    case 3
    then have l: "length ?ids = 1 \<or> length ?ids = 2" by simp
    show ?thesis
    proof (cases "promise_all (map (users_info up) ?ids)")
      case (Inl e)
      with 3 have "handler_sm fuel up command_text =
          (Completed, Ack # map UsersInfo ?ids @ catch_error_sm e)"
        by (auto simp: handler_sm_def Let_def)
      with l Inl show ?thesis by (rule LookupFailed)
    next
      case (Inr userInfo)
      obtain st t where s: "two_users_sm fuel up (userInfo ! 0) (userInfo ! 1) = (st, t)"
        by (cases "two_users_sm fuel up (userInfo ! 0) (userInfo ! 1)")
      with 3 Inr have "handler_sm fuel up command_text = (st, Ack # map UsersInfo ?ids @ t)"
        by (auto simp: handler_sm_def Let_def)
      with 3 Inr s show ?thesis by (rule Two)
    qed
  qed
qed

subsection \<open>Failures and concurrent loops\<close>


lemma failures_append [simp]: "failures up (a @ b) = failures up a @ failures up b"
  by (simp add: failures_def)

lemma failures_Cons [simp]: "failures up (ev # t) = failure up ev @ failures up t"
  by (simp add: failures_def)

lemma failures_Nil [simp]: "failures up [] = []"
  by (simp add: failures_def)

lemma failures_catch_error [simp]:
  "failures up (catch_error e) = []" "failures up (catch_error_sm e) = []"
  by (simp_all add: catch_error_def catch_error_sm_def)

lemma failures_empty_iff: "failures up t = [] \<longleftrightarrow> (\<forall>ev\<in>set t. failure up ev = [])"
  by (induction t) auto

lemma failures_take: "failures up t = [] \<Longrightarrow> failures up (take k t) = []"
  unfolding failures_empty_iff by (blast dest: in_set_takeD)

lemma failures_take_butlast:
  "failures up (butlast t) = [] \<Longrightarrow> k < length t \<Longrightarrow> failures up (take k t) = []"
  using failures_take [of up "butlast t" k] by (simp add: take_butlast)

lemma failures_interleave_left:
  "failures up b = [] \<Longrightarrow> failures up (interleave a b) = failures up a"
  by (induction a b rule: interleave.induct) auto

lemma failures_interleave_right:
  "failures up a = [] \<Longrightarrow> failures up (interleave a b) = failures up b"
  by (induction a b rule: interleave.induct) auto

lemma set_interleave [simp]: "set (interleave a b) = set a \<union> set b"
  by (induction a b rule: interleave.induct) auto

lemma length_interleave [simp]: "length (interleave a b) = length a + length b"
  by (induction a b rule: interleave.induct) auto

lemma says_remote: "list_all is_remote t \<Longrightarrow> says t = []"
  by (induction t rule: says.induct) auto

lemma ack_remote: "list_all is_remote t \<Longrightarrow> Ack \<notin> set t"
  by (induction t) auto

lemma failures_fetch_loop:
  "fetch_loop fuel up u acc cur = (r, t) \<Longrightarrow>
   failures up t = (case r of Threw e \<Rightarrow> [e] | Returned a \<Rightarrow> [] | Awaiting \<Rightarrow> [])"
  by (induction fuel arbitrary: acc cur r t)
    (auto simp: Let_def split: sum.splits prod.splits if_splits)

lemma failures_fetch_loop_sm:
  "fetch_loop_sm fuel up u acc cur = (r, t) \<Longrightarrow>
   failures up t = (case r of Threw e \<Rightarrow> [e] | Returned a \<Rightarrow> [] | Awaiting \<Rightarrow> [])"
  by (induction fuel arbitrary: acc cur r t)
    (auto simp: Let_def split: sum.splits prod.splits if_splits)

lemma butlast_fetch_loop:
  "fetch_loop fuel up u acc cur = (r, t) \<Longrightarrow> failures up (butlast t) = []"
  by (induction fuel arbitrary: acc cur r t)
    (auto simp: Let_def split: sum.splits prod.splits if_splits)

lemma butlast_fetch_loop_sm:
  "fetch_loop_sm fuel up u acc cur = (r, t) \<Longrightarrow> failures up (butlast t) = []"
  by (induction fuel arbitrary: acc cur r t)
    (auto simp: Let_def split: sum.splits prod.splits if_splits)

lemma length_fetch_loop:
  "fetch_loop fuel up u acc cur = (r, t) \<Longrightarrow> length t \<le> fuel \<and> (r = Awaiting \<longrightarrow> length t = fuel)"
  by (induction fuel arbitrary: acc cur r t)
    (auto simp: Let_def split: sum.splits prod.splits if_splits)

lemma length_fetch_loop_sm:
  "fetch_loop_sm fuel up u acc cur = (r, t) \<Longrightarrow> length t \<le> fuel \<and> (r = Awaiting \<longrightarrow> length t = fuel)"
  by (induction fuel arbitrary: acc cur r t)
    (auto simp: Let_def split: sum.splits prod.splits if_splits)

lemma remote_requests: "\<forall>ev\<in>set t. \<exists>c. ev = UsersConversations u c \<Longrightarrow> list_all is_remote t"
  by (induction t) auto

lemma loop_result_fetchUserChannels: "loop_result up (fetchUserChannels fuel up u)"
proof -
  obtain r t where f: "fetch_loop fuel up u [] None = (r, t)"
    by (cases "fetch_loop fuel up u [] None")
  from fetch_loop_requests [OF f] failures_fetch_loop [OF f] butlast_fetch_loop [OF f]
  show ?thesis by (simp add: loop_result_def fetchUserChannels_def f remote_requests)
qed

lemma loop_result_fetchUserChannels_sm: "loop_result up (fetchUserChannels_sm fuel up u)"
proof -
  obtain r t where f: "fetch_loop_sm fuel up u [] None = (r, t)"
    by (cases "fetch_loop_sm fuel up u [] None")
  from fetch_loop_sm_requests [OF f] failures_fetch_loop_sm [OF f] butlast_fetch_loop_sm [OF f]
  show ?thesis by (simp add: loop_result_def fetchUserChannels_sm_def f remote_requests)
qed

subsection \<open>Both loops of a comparison\<close>


lemma list_all_interleave [simp]:
  "list_all P (interleave a b) \<longleftrightarrow> list_all P a \<and> list_all P b"
  by (simp add: list_all_iff) blast

lemma list_all_take: "list_all P t \<Longrightarrow> list_all P (take k t)"
  by (auto simp: list_all_iff dest: in_set_takeD)

lemma promise_all2_remote:
  "list_all is_remote (snd p1) \<Longrightarrow> list_all is_remote (snd p2) \<Longrightarrow>
   list_all is_remote (snd (promise_all2 p1 p2))"
  by (cases p1; cases p2)
    (auto simp: promise_all2_def list_all_take split: outcome.splits)

lemma promise_all2_Awaiting:
  "fst (promise_all2 p1 p2) = Awaiting \<longleftrightarrow>
     (fst p1 = Awaiting \<and> \<not> (\<exists>e. fst p2 = Threw e \<and> length (snd p2) < length (snd p1))) \<or>
     (fst p2 = Awaiting \<and> (\<forall>e. fst p1 \<noteq> Threw e))"
  by (cases p1; cases p2) (auto simp: promise_all2_def split: outcome.splits)

lemma promise_all2_Returned:
  "promise_all2 p1 p2 = (Returned (a, b), t) \<longleftrightarrow>
     fst p1 = Returned a \<and> fst p2 = Returned b \<and> t = interleave (snd p1) (snd p2)"
  by (cases p1; cases p2) (auto simp: promise_all2_def split: outcome.splits)

text \<open>The first failure of two traces issued in turn.\<close>

lemma first_loop_first:
  "failures up a \<noteq> [] \<Longrightarrow> failures up (butlast b) = [] \<Longrightarrow>
   length a \<le> length b \<or> failures up b = [] \<Longrightarrow>
   failures up (interleave a b) \<noteq> [] \<and> hd (failures up (interleave a b)) = hd (failures up a)"
proof (induction a b rule: interleave.induct)
  case (1 ys)
  then show ?case by simp
next
  case (2 x xs)
  then show ?case by simp
next
  case (3 x xs y ys)
  show ?case
  proof (cases "failures up (y # ys) = []")
    case True
    with 3(2) show ?thesis by (simp add: failures_interleave_left)
  next
    case ne: False
    with 3(4) have l: "length xs \<le> length ys" by auto
    show ?thesis
    proof (cases "failure up x = []")
      case False
      then show ?thesis by simp
    next
      case True
      with 3(2) have fx: "failures up xs \<noteq> []" by simp
      then have "xs \<noteq> []" by auto
      with l have ys: "ys \<noteq> []" by auto
      with 3(3) have fy: "failure up y = []" and b: "failures up (butlast ys) = []" by simp_all
      from 3(1) [OF fx b] l True fy show ?thesis by simp
    qed
  qed
qed

lemma second_loop_first:
  "failures up b \<noteq> [] \<Longrightarrow> failures up (take (length b) a) = [] \<Longrightarrow>
   failures up (interleave a b) \<noteq> [] \<and> hd (failures up (interleave a b)) = hd (failures up b)"
proof (induction a b rule: interleave.induct)
  case (1 ys)
  then show ?case by simp
next
  case (2 x xs)
  then show ?case by simp
next
  case (3 x xs y ys)
  from 3(3) have fx: "failure up x = []" and t: "failures up (take (length ys) xs) = []"
    by simp_all
  show ?case
  proof (cases "failure up y = []")
    case False
    with fx show ?thesis by simp
  next
    case True
    with 3(2) have "failures up ys \<noteq> []" by simp
    from 3(1) [OF this t] fx True show ?thesis by simp
  qed
qed

lemma butlast_take_failures:
  "failures up (butlast t) = [] \<Longrightarrow> failures up (butlast (take k t)) = []"
proof (cases "k < length t")
  case True
  assume "failures up (butlast t) = []"
  then have "failures up (take (k - 1) t) = []" using True by (simp add: failures_take_butlast)
  with True show ?thesis by (simp add: butlast_take)
next
  case False
  assume "failures up (butlast t) = []"
  with False show ?thesis by simp
qed

lemma first_settles:
  assumes "failures up t1 = [e1]" and "failures up (butlast t2) = []"
    and "length t1 \<le> length t2 \<or> failures up t2 = []"
  shows "failures up (interleave t1 (take (length t1) t2)) \<noteq> [] \<and>
         hd (failures up (interleave t1 (take (length t1) t2))) = e1"
proof -
  from assms(2) have b: "failures up (butlast (take (length t1) t2)) = []"
    by (rule butlast_take_failures)
  from assms(3) have "length t1 \<le> length (take (length t1) t2) \<or> failures up (take (length t1) t2) = []"
    by (auto simp: failures_take)
  with first_loop_first [of up t1 "take (length t1) t2"] assms(1) b show ?thesis by simp
qed

lemma second_settles:
  assumes "failures up t2 = [e2]" and "failures up (take (length t2) t1) = []"
  shows "failures up (interleave (take (Suc (length t2)) t1) t2) \<noteq> [] \<and>
         hd (failures up (interleave (take (Suc (length t2)) t1) t2)) = e2"
proof -
  have "take (length t2) (take (Suc (length t2)) t1) = take (length t2) t1"
    by (simp add: min_def)
  with second_loop_first [of up t2 "take (Suc (length t2)) t1"] assms show ?thesis by simp
qed

lemma promise_all2_Threw:
  assumes "loop_result up p1" and "loop_result up p2" and "fst (promise_all2 p1 p2) = Threw e"
  shows "failures up (snd (promise_all2 p1 p2)) \<noteq> [] \<and>
         hd (failures up (snd (promise_all2 p1 p2))) = e"
proof -
  obtain r1 t1 where p1: "p1 = (r1, t1)" by (cases p1)
  obtain r2 t2 where p2: "p2 = (r2, t2)" by (cases p2)
  from assms p1 p2 have b1: "failures up (butlast t1) = []" and b2: "failures up (butlast t2) = []"
    and f1: "failures up t1 = (case r1 of Threw e \<Rightarrow> [e] | Returned a \<Rightarrow> [] | Awaiting \<Rightarrow> [])"
    and f2: "failures up t2 = (case r2 of Threw e \<Rightarrow> [e] | Returned a \<Rightarrow> [] | Awaiting \<Rightarrow> [])"
    by (simp_all add: loop_result_def)
  show ?thesis
  proof (cases r1)
    case (Threw e1)
    with f1 have t1: "failures up t1 = [e1]" by simp
    show ?thesis
    proof (cases r2)
      case r2: (Threw e2)
      with f2 have t2: "failures up t2 = [e2]" by simp
      show ?thesis
      proof (cases "length t1 \<le> length t2")
        case True
        then have "length t1 \<le> length t2 \<or> failures up t2 = []" by simp
        from first_settles [OF t1 b2 this] True Threw r2 assms(3) show ?thesis
          by (simp add: p1 p2 promise_all2_def)
      next
        case False
        then have "length t2 < length t1" by simp
        with b1 have "failures up (take (length t2) t1) = []" by (rule failures_take_butlast)
        from second_settles [OF t2 this] False Threw r2 assms(3) show ?thesis
          by (simp add: p1 p2 promise_all2_def)
      qed
    next
      case (Returned b)
      with f2 have "length t1 \<le> length t2 \<or> failures up t2 = []" by simp
      from first_settles [OF t1 b2 this] Threw Returned assms(3) show ?thesis
        by (simp add: p1 p2 promise_all2_def)
    next
      case Awaiting
      with f2 have "length t1 \<le> length t2 \<or> failures up t2 = []" by simp
      from first_settles [OF t1 b2 this] Threw Awaiting assms(3) show ?thesis
        by (simp add: p1 p2 promise_all2_def)
    qed
  next
    case (Returned a)
    with f1 have t1: "failures up t1 = []" by simp
    then have tk: "failures up (take (length t2) t1) = []" by (rule failures_take)
    show ?thesis
    proof (cases r2)
      case (Threw e2)
      with f2 have t2: "failures up t2 = [e2]" by simp
      from second_settles [OF t2 tk] Threw Returned assms(3) show ?thesis
        by (simp add: p1 p2 promise_all2_def)
    next
      case r2: (Returned b)
      with Returned assms(3) show ?thesis by (simp add: p1 p2 promise_all2_def)
    next
      case Awaiting
      with Returned assms(3) show ?thesis by (simp add: p1 p2 promise_all2_def)
    qed
  next
    case Awaiting
    with f1 have t1: "failures up t1 = []" by simp
    then have tk: "failures up (take (length t2) t1) = []" by (rule failures_take)
    show ?thesis
    proof (cases r2)
      case (Threw e2)
      with f2 have t2: "failures up t2 = [e2]" by simp
      from second_settles [OF t2 tk] Threw Awaiting assms(3) show ?thesis
        by (simp add: p1 p2 promise_all2_def split: if_splits)
    next
      case (Returned b)
      with Awaiting assms(3) show ?thesis by (simp add: p1 p2 promise_all2_def)
    next
      case r2: Awaiting
      with Awaiting assms(3) show ?thesis by (simp add: p1 p2 promise_all2_def)
    qed
  qed
qed

lemma promise_all2_quiet:
  assumes "loop_result up p1" and "loop_result up p2" and "fst (promise_all2 p1 p2) = Returned c"
  shows "failures up (snd (promise_all2 p1 p2)) = []"
proof -
  obtain a b where c: "c = (a, b)" by (cases c)
  from assms(3) have "promise_all2 p1 p2 = (Returned (a, b), snd (promise_all2 p1 p2))"
    unfolding c by (metis prod.collapse)
  then have "fst p1 = Returned a" "fst p2 = Returned b"
    and t: "snd (promise_all2 p1 p2) = interleave (snd p1) (snd p2)"
    unfolding promise_all2_Returned by simp_all
  with assms(1,2) have "failures up (snd p1) = []" "failures up (snd p2) = []"
    by (simp_all add: loop_result_def)
  then show ?thesis unfolding t by (simp add: failures_interleave_left)
qed

lemma promise_all2_pending:
  assumes "loop_result up p1" and "loop_result up p2" and "fst (promise_all2 p1 p2) = Awaiting"
    and "failures up (snd (promise_all2 p1 p2)) \<noteq> []"
  shows "fst p2 = Threw (hd (failures up (snd (promise_all2 p1 p2))))"
proof -
  obtain r1 t1 where p1: "p1 = (r1, t1)" by (cases p1)
  obtain r2 t2 where p2: "p2 = (r2, t2)" by (cases p2)
  from assms p1 p2 have
    f1: "failures up t1 = (case r1 of Threw e \<Rightarrow> [e] | Returned a \<Rightarrow> [] | Awaiting \<Rightarrow> [])"
    and f2: "failures up t2 = (case r2 of Threw e \<Rightarrow> [e] | Returned a \<Rightarrow> [] | Awaiting \<Rightarrow> [])"
    by (simp_all add: loop_result_def)
  from assms(3) have t: "snd (promise_all2 p1 p2) = interleave t1 t2" and r1: "\<forall>e. r1 \<noteq> Threw e"
    by (auto simp: p1 p2 promise_all2_def split: outcome.splits if_splits)
  from r1 f1 have "failures up t1 = []" by (cases r1) auto
  then have "failures up (interleave t1 t2) = failures up t2" by (rule failures_interleave_right)
  with assms(4) t f2 show ?thesis by (cases r2) (auto simp: p2)
qed

subsection \<open>More fuel\<close>



lemma fetch_loop_page_failure:
  "(\<exists>e. fst (fetch_loop fuel up u acc cur) = Threw e) \<longleftrightarrow> page_failure up u cur fuel"
proof (induction fuel arbitrary: acc cur)
  case 0
  show ?case by simp
next
  case (Suc n)
  show ?case
  proof (cases "users_conversations up u cur")
    case (Inl e)
    then show ?thesis by simp
  next
    case (Inr p)
    show ?thesis
    proof (cases "page_cursor p")
      case None
      with Inr show ?thesis by (simp add: fetch_loop_last del: fetch_loop.simps)
    next
      case (Some c)
      with Inr Suc [of "acc @ page_elements p" "Some c"] show ?thesis
        by (simp add: fetch_loop_more del: fetch_loop.simps)
    qed
  qed
qed

lemma fetch_loop_sm_page_failure:
  "(\<exists>e. fst (fetch_loop_sm fuel up u acc cur) = Threw e) \<longleftrightarrow> page_failure up u cur fuel"
proof (induction fuel arbitrary: acc cur)
  case 0
  show ?case by simp
next
  case (Suc n)
  show ?case
  proof (cases "users_conversations up u cur")
    case (Inl e)
    then show ?thesis by simp
  next
    case (Inr p)
    show ?thesis
    proof (cases "page_cursor p")
      case None
      with Inr show ?thesis by (simp add: fetch_loop_sm_last del: fetch_loop_sm.simps)
    next
      case (Some c)
      with Inr Suc [of "acc @ page_channels p" "Some c"] show ?thesis
        by (simp add: fetch_loop_sm_more del: fetch_loop_sm.simps)
    qed
  qed
qed

lemma fetch_loop_stable:
  "fst (fetch_loop n up u acc cur) \<noteq> Awaiting \<Longrightarrow>
   fetch_loop (n + k) up u acc cur = fetch_loop n up u acc cur"
proof (induction n arbitrary: acc cur)
  case 0
  then show ?case by simp
next
  case (Suc n)
  show ?case
  proof (cases "users_conversations up u cur")
    case (Inl e)
    then show ?thesis by simp
  next
    case (Inr p)
    show ?thesis
    proof (cases "page_cursor p")
      case None
      with Inr show ?thesis by (simp add: fetch_loop_last del: fetch_loop.simps)
    next
      case (Some c)
      with Inr Suc.prems have "fst (fetch_loop n up u (acc @ page_elements p) (Some c)) \<noteq> Awaiting"
        by (simp add: fetch_loop_more del: fetch_loop.simps)
      then have "fetch_loop (n + k) up u (acc @ page_elements p) (Some c) =
          fetch_loop n up u (acc @ page_elements p) (Some c)" by (rule Suc.IH)
      with Inr Some show ?thesis by (simp add: fetch_loop_more del: fetch_loop.simps)
    qed
  qed
qed

lemma fetch_loop_sm_stable:
  "fst (fetch_loop_sm n up u acc cur) \<noteq> Awaiting \<Longrightarrow>
   fetch_loop_sm (n + k) up u acc cur = fetch_loop_sm n up u acc cur"
proof (induction n arbitrary: acc cur)
  case 0
  then show ?case by simp
next
  case (Suc n)
  show ?case
  proof (cases "users_conversations up u cur")
    case (Inl e)
    then show ?thesis by simp
  next
    case (Inr p)
    show ?thesis
    proof (cases "page_cursor p")
      case None
      with Inr show ?thesis by (simp add: fetch_loop_sm_last del: fetch_loop_sm.simps)
    next
      case (Some c)
      with Inr Suc.prems have "fst (fetch_loop_sm n up u (acc @ page_channels p) (Some c)) \<noteq> Awaiting"
        by (simp add: fetch_loop_sm_more del: fetch_loop_sm.simps)
      then have "fetch_loop_sm (n + k) up u (acc @ page_channels p) (Some c) =
          fetch_loop_sm n up u (acc @ page_channels p) (Some c)" by (rule Suc.IH)
      with Inr Some show ?thesis by (simp add: fetch_loop_sm_more del: fetch_loop_sm.simps)
    qed
  qed
qed

lemma fetch_loop_prefix:
  "fst (fetch_loop n up u acc cur) = Awaiting \<Longrightarrow>
   take n (snd (fetch_loop (n + Suc k) up u acc cur)) = snd (fetch_loop n up u acc cur) \<and>
   n < length (snd (fetch_loop (n + Suc k) up u acc cur))"
proof (induction n arbitrary: acc cur)
  case 0
  show ?case by (auto simp: Let_def split: sum.splits prod.splits)
next
  case (Suc n)
  show ?case
  proof (cases "users_conversations up u cur")
    case (Inl e)
    with Suc.prems show ?thesis by simp
  next
    case (Inr p)
    show ?thesis
    proof (cases "page_cursor p")
      case None
      with Inr Suc.prems show ?thesis by (simp add: fetch_loop_last del: fetch_loop.simps)
    next
      case (Some c)
      with Inr Suc.prems have "fst (fetch_loop n up u (acc @ page_elements p) (Some c)) = Awaiting"
        by (simp add: fetch_loop_more del: fetch_loop.simps)
      from Suc.IH [OF this] Inr Some show ?thesis
        by (simp add: fetch_loop_more del: fetch_loop.simps)
    qed
  qed
qed

lemma fetch_loop_sm_prefix:
  "fst (fetch_loop_sm n up u acc cur) = Awaiting \<Longrightarrow>
   take n (snd (fetch_loop_sm (n + Suc k) up u acc cur)) = snd (fetch_loop_sm n up u acc cur) \<and>
   n < length (snd (fetch_loop_sm (n + Suc k) up u acc cur))"
proof (induction n arbitrary: acc cur)
  case 0
  show ?case by (auto simp: Let_def split: sum.splits prod.splits)
next
  case (Suc n)
  show ?case
  proof (cases "users_conversations up u cur")
    case (Inl e)
    with Suc.prems show ?thesis by simp
  next
    case (Inr p)
    show ?thesis
    proof (cases "page_cursor p")
      case None
      with Inr Suc.prems show ?thesis by (simp add: fetch_loop_sm_last del: fetch_loop_sm.simps)
    next
      case (Some c)
      with Inr Suc.prems have "fst (fetch_loop_sm n up u (acc @ page_channels p) (Some c)) = Awaiting"
        by (simp add: fetch_loop_sm_more del: fetch_loop_sm.simps)
      from Suc.IH [OF this] Inr Some show ?thesis
        by (simp add: fetch_loop_sm_more del: fetch_loop_sm.simps)
    qed
  qed
qed

lemma fetch_loop_fails_within:
  "(\<exists>e. fst (fetch_loop n up u acc cur) = Threw e \<and> length (snd (fetch_loop n up u acc cur)) \<le> k)
   \<longleftrightarrow> page_failure up u cur (min n k)"
proof (induction n arbitrary: acc cur k)
  case 0
  show ?case by simp
next
  case (Suc n)
  show ?case
  proof (cases k)
    case 0
    then show ?thesis by (auto simp: Let_def split: sum.splits prod.splits)
  next
    case k: (Suc j)
    show ?thesis
    proof (cases "users_conversations up u cur")
      case (Inl e)
      with k show ?thesis by simp
    next
      case (Inr p)
      show ?thesis
      proof (cases "page_cursor p")
        case None
        with Inr k show ?thesis by (simp add: fetch_loop_last del: fetch_loop.simps)
      next
        case (Some c)
        with Inr k Suc [of "acc @ page_elements p" "Some c" j] show ?thesis
          by (simp add: fetch_loop_more del: fetch_loop.simps)
      qed
    qed
  qed
qed

lemma fetch_loop_sm_fails_within:
  "(\<exists>e. fst (fetch_loop_sm n up u acc cur) = Threw e \<and> length (snd (fetch_loop_sm n up u acc cur)) \<le> k)
   \<longleftrightarrow> page_failure up u cur (min n k)"
proof (induction n arbitrary: acc cur k)
  case 0
  show ?case by simp
next
  case (Suc n)
  show ?case
  proof (cases k)
    case 0
    then show ?thesis by (auto simp: Let_def split: sum.splits prod.splits)
  next
    case k: (Suc j)
    show ?thesis
    proof (cases "users_conversations up u cur")
      case (Inl e)
      with k show ?thesis by simp
    next
      case (Inr p)
      show ?thesis
      proof (cases "page_cursor p")
        case None
        with Inr k show ?thesis by (simp add: fetch_loop_sm_last del: fetch_loop_sm.simps)
      next
        case (Some c)
        with Inr k Suc [of "acc @ page_channels p" "Some c" j] show ?thesis
          by (simp add: fetch_loop_sm_more del: fetch_loop_sm.simps)
      qed
    qed
  qed
qed

lemma fetch_loop_fails_before:
  "(\<exists>e. fst (fetch_loop n up u acc cur) = Threw e \<and> length (snd (fetch_loop n up u acc cur)) < n)
   \<longleftrightarrow> page_failure up u cur (n - 1)"
proof (cases n)
  case 0
  then show ?thesis by simp
next
  case (Suc m)
  with fetch_loop_fails_within [of n up u acc cur m] show ?thesis
    by (simp add: less_Suc_eq_le)
qed

lemma fetch_loop_sm_fails_before:
  "(\<exists>e. fst (fetch_loop_sm n up u acc cur) = Threw e \<and> length (snd (fetch_loop_sm n up u acc cur)) < n)
   \<longleftrightarrow> page_failure up u cur (n - 1)"
proof (cases n)
  case 0
  then show ?thesis by simp
next
  case (Suc m)
  with fetch_loop_sm_fails_within [of n up u acc cur m] show ?thesis
    by (simp add: less_Suc_eq_le)
qed

text \<open>
  What more fuel does to the result of a loop: a settled result stays, an awaiting one
  is extended.
\<close>

lemma promise_all2_stable:
  assumes e1: "(fst p1 \<noteq> Awaiting \<and> q1 = p1) \<or>
               (fst p1 = Awaiting \<and> take n (snd q1) = snd p1 \<and> n < length (snd q1))"
    and e2: "(fst p2 \<noteq> Awaiting \<and> q2 = p2) \<or>
             (fst p2 = Awaiting \<and> take n (snd q2) = snd p2 \<and> n < length (snd q2))"
    and l1: "length (snd p1) \<le> n" and l2: "length (snd p2) \<le> n"
    and s: "fst (promise_all2 p1 p2) \<noteq> Awaiting"
  shows "promise_all2 q1 q2 = promise_all2 p1 p2"
proof -
  obtain r1 t1 where p1: "p1 = (r1, t1)" by (cases p1)
  obtain r2 t2 where p2: "p2 = (r2, t2)" by (cases p2)
  obtain r1' t1' where q1: "q1 = (r1', t1')" by (cases q1)
  obtain r2' t2' where q2: "q2 = (r2', t2')" by (cases q2)
  show ?thesis
  proof (cases "r1 = Awaiting")
    case a1: True
    with s p1 p2 obtain e2 where r2: "r2 = Threw e2" and lt: "length t2 < length t1"
      by (cases r2) (auto simp: promise_all2_def split: if_splits)
    with e2 p2 q2 have q2': "r2' = Threw e2" "t2' = t2" by auto
    from a1 e1 p1 q1 have x: "take n t1' = t1" "n < length t1'" by auto
    from l1 p1 have "length t1 \<le> n" by simp
    with lt x have tt: "take (Suc (length t2)) t1' = take (Suc (length t2)) t1"
      by (auto simp: min_def)
    from lt x have l': "length t2 < length t1'" "\<not> length t1' \<le> length t2" by auto
    with a1 r2 q2' tt lt show ?thesis
      by (cases r1') (simp_all add: promise_all2_def p1 p2 q1 q2)
  next
    case n1: False
    with e1 p1 q1 have q1': "r1' = r1" "t1' = t1" by auto
    show ?thesis
    proof (cases "r2 = Awaiting")
      case a2: True
      with s p1 p2 n1 obtain e1 where r1: "r1 = Threw e1"
        by (cases r1) (auto simp: promise_all2_def)
      from a2 e2 p2 q2 have x: "take n t2' = t2" "n < length t2'" by auto
      from l1 p1 have l: "length t1 \<le> n" by simp
      with x have tt: "take (length t1) t2' = take (length t1) t2" by (auto simp: min_def)
      from l x have "length t1 \<le> length t2'" by simp
      with a2 r1 q1' tt show ?thesis
        by (cases r2') (simp_all add: promise_all2_def p1 p2 q1 q2)
    next
      case False
      with e2 p2 q2 have "r2' = r2" "t2' = t2" by auto
      with q1' show ?thesis by (simp add: p1 p2 q1 q2)
    qed
  qed
qed

text \<open>
  A failure of the second loop that is not yet answered is answered once the first
  loop has issued one more request.
\<close>

lemma promise_all2_answered:
  assumes "fst p2 = Threw e" and "length (snd p2) < length (snd q1)"
  shows "fst (promise_all2 q1 p2) = Threw e"
  using assms by (cases q1; cases p2) (auto simp: promise_all2_def split: outcome.splits)

subsection \<open>The two loops with more fuel\<close>



lemma fetchUserChannels_extended:
  "(fst (fetchUserChannels n up u) \<noteq> Awaiting \<and> fetchUserChannels (n + k) up u = fetchUserChannels n up u) \<or>
   (fst (fetchUserChannels n up u) = Awaiting \<and>
    take n (snd (fetchUserChannels (n + Suc j) up u)) = snd (fetchUserChannels n up u) \<and>
    n < length (snd (fetchUserChannels (n + Suc j) up u)))"
  unfolding fetchUserChannels_def
  using fetch_loop_stable [of n up u "[]" None k] fetch_loop_prefix [of n up u "[]" None j]
  by blast

lemma fetchUserChannels_sm_extended:
  "(fst (fetchUserChannels_sm n up u) \<noteq> Awaiting \<and> fetchUserChannels_sm (n + k) up u = fetchUserChannels_sm n up u) \<or>
   (fst (fetchUserChannels_sm n up u) = Awaiting \<and>
    take n (snd (fetchUserChannels_sm (n + Suc j) up u)) = snd (fetchUserChannels_sm n up u) \<and>
    n < length (snd (fetchUserChannels_sm (n + Suc j) up u)))"
  unfolding fetchUserChannels_sm_def
  using fetch_loop_sm_stable [of n up u "[]" None k] fetch_loop_sm_prefix [of n up u "[]" None j]
  by blast

lemma length_fetchUserChannels: "length (snd (fetchUserChannels n up u)) \<le> n"
  using length_fetch_loop [of n up u "[]" None] unfolding fetchUserChannels_def
  by (cases "fetch_loop n up u [] None") simp

lemma length_fetchUserChannels_sm: "length (snd (fetchUserChannels_sm n up u)) \<le> n"
  using length_fetch_loop_sm [of n up u "[]" None] unfolding fetchUserChannels_sm_def
  by (cases "fetch_loop_sm n up u [] None") simp

lemma both_loops_stable:
  assumes "fst (promise_all2 (fetchUserChannels n up u1) (fetchUserChannels n up u2)) \<noteq> Awaiting"
  shows "promise_all2 (fetchUserChannels (n + k) up u1) (fetchUserChannels (n + k) up u2) =
         promise_all2 (fetchUserChannels n up u1) (fetchUserChannels n up u2)"
proof (cases k)
  case 0
  then show ?thesis by simp
next
  case (Suc j)
  from fetchUserChannels_extended [of n up u1 "Suc j" j] fetchUserChannels_extended [of n up u2 "Suc j" j]
    length_fetchUserChannels [of n up u1] length_fetchUserChannels [of n up u2] assms
  show ?thesis unfolding Suc by (rule promise_all2_stable)
qed

lemma both_loops_sm_stable:
  assumes "fst (promise_all2 (fetchUserChannels_sm n up u1) (fetchUserChannels_sm n up u2)) \<noteq> Awaiting"
  shows "promise_all2 (fetchUserChannels_sm (n + k) up u1) (fetchUserChannels_sm (n + k) up u2) =
         promise_all2 (fetchUserChannels_sm n up u1) (fetchUserChannels_sm n up u2)"
proof (cases k)
  case 0
  then show ?thesis by simp
next
  case (Suc j)
  from fetchUserChannels_sm_extended [of n up u1 "Suc j" j] fetchUserChannels_sm_extended [of n up u2 "Suc j" j]
    length_fetchUserChannels_sm [of n up u1] length_fetchUserChannels_sm [of n up u2] assms
  show ?thesis unfolding Suc by (rule promise_all2_stable)
qed

lemma both_loops:
  assumes "promise_all2 (fetchUserChannels fuel up u1) (fetchUserChannels fuel up u2) = (r, t)"
  shows "list_all is_remote t"
    and "\<And>e. r = Threw e \<Longrightarrow> failures up t \<noteq> [] \<and> hd (failures up t) = e"
    and "\<And>c. r = Returned c \<Longrightarrow> failures up t = []"
    and "r = Awaiting \<Longrightarrow> failures up t \<noteq> [] \<Longrightarrow> fst (fetchUserChannels fuel up u2) = Threw (hd (failures up t))"
proof -
  let ?p = "promise_all2 (fetchUserChannels fuel up u1) (fetchUserChannels fuel up u2)"
  have l: "loop_result up (fetchUserChannels fuel up u1)" "loop_result up (fetchUserChannels fuel up u2)"
    by (rule loop_result_fetchUserChannels)+
  then have "list_all is_remote (snd (fetchUserChannels fuel up u1))"
    "list_all is_remote (snd (fetchUserChannels fuel up u2))" by (simp_all add: loop_result_def)
  then have "list_all is_remote (snd ?p)" by (rule promise_all2_remote)
  with assms show "list_all is_remote t" by simp
  show "failures up t \<noteq> [] \<and> hd (failures up t) = e" if "r = Threw e" for e
    using promise_all2_Threw [OF l, of e] assms that by simp
  show "failures up t = []" if "r = Returned c" for c
    using promise_all2_quiet [OF l, of c] assms that by simp
  show "fst (fetchUserChannels fuel up u2) = Threw (hd (failures up t))"
    if "r = Awaiting" "failures up t \<noteq> []"
    using promise_all2_pending [OF l] assms that by simp
qed

lemma both_loops_sm:
  assumes "promise_all2 (fetchUserChannels_sm fuel up u1) (fetchUserChannels_sm fuel up u2) = (r, t)"
  shows "list_all is_remote t"
    and "\<And>e. r = Threw e \<Longrightarrow> failures up t \<noteq> [] \<and> hd (failures up t) = e"
    and "\<And>c. r = Returned c \<Longrightarrow> failures up t = []"
    and "r = Awaiting \<Longrightarrow> failures up t \<noteq> [] \<Longrightarrow> fst (fetchUserChannels_sm fuel up u2) = Threw (hd (failures up t))"
proof -
  let ?p = "promise_all2 (fetchUserChannels_sm fuel up u1) (fetchUserChannels_sm fuel up u2)"
  have l: "loop_result up (fetchUserChannels_sm fuel up u1)" "loop_result up (fetchUserChannels_sm fuel up u2)"
    by (rule loop_result_fetchUserChannels_sm)+
  then have "list_all is_remote (snd (fetchUserChannels_sm fuel up u1))"
    "list_all is_remote (snd (fetchUserChannels_sm fuel up u2))" by (simp_all add: loop_result_def)
  then have "list_all is_remote (snd ?p)" by (rule promise_all2_remote)
  with assms show "list_all is_remote t" by simp
  show "failures up t \<noteq> [] \<and> hd (failures up t) = e" if "r = Threw e" for e
    using promise_all2_Threw [OF l, of e] assms that by simp
  show "failures up t = []" if "r = Returned c" for c
    using promise_all2_quiet [OF l, of c] assms that by simp
  show "fst (fetchUserChannels_sm fuel up u2) = Threw (hd (failures up t))"
    if "r = Awaiting" "failures up t \<noteq> []"
    using promise_all2_pending [OF l] assms that by simp
qed

subsection \<open>The scenarios\<close>

lemma says_scenario_two_users:
  assumes "scenario_two_users fuel up u1 u2 = (st, t)"
  shows "(st = Completed \<longrightarrow> length (says t) = 1) \<and> (st = Unfinished \<longrightarrow> says t = [])"
proof -
  obtain r tt where p: "promise_all2 (fetchUserChannels fuel up (id_u u1)) (fetchUserChannels fuel up (id_u u2)) = (r, tt)"
    by (cases "promise_all2 (fetchUserChannels fuel up (id_u u1)) (fetchUserChannels fuel up (id_u u2))")
  note both_loops(1) [OF p]
  then have "says tt = []" by (rule says_remote)
  with assms show ?thesis
    by (auto simp: scenario_two_users_def p split: outcome.splits option.splits prod.splits)
qed

lemma says_two_users_sm:
  assumes "two_users_sm fuel up u1 u2 = (st, t)"
  shows "(st = Completed \<longrightarrow> length (says t) = 1) \<and> (st = Unfinished \<longrightarrow> says t = [])"
proof -
  obtain r tt where p: "promise_all2 (fetchUserChannels_sm fuel up (id_u u1)) (fetchUserChannels_sm fuel up (id_u u2)) = (r, tt)"
    by (cases "promise_all2 (fetchUserChannels_sm fuel up (id_u u1)) (fetchUserChannels_sm fuel up (id_u u2))")
  note both_loops_sm(1) [OF p]
  then have "says tt = []" by (rule says_remote)
  with assms show ?thesis
    by (auto simp: two_users_sm_def p split: outcome.splits option.splits prod.splits)
qed

lemma ack_UsersInfo [simp]: "Ack \<notin> set (map UsersInfo ids)"
  by (induction ids) auto

lemma ack_catch_error [simp]: "Ack \<notin> set (catch_error e)" "Ack \<notin> set (catch_error_sm e)"
  by (simp_all add: catch_error_def catch_error_sm_def)

lemma ack_scenario_one_user: "scenario_one_user fuel up u = (st, t) \<Longrightarrow> Ack \<notin> set t"
  by (auto simp: scenario_one_user_def split: prod.splits outcome.splits option.splits
      dest: ack_fetchUserChannels)

lemma ack_one_user_sm: "one_user_sm fuel up u = (st, t) \<Longrightarrow> Ack \<notin> set t"
  by (auto simp: one_user_sm_def split: prod.splits outcome.splits option.splits
      dest: ack_fetchUserChannels_sm)

lemma ack_scenario_two_users:
  assumes "scenario_two_users fuel up u1 u2 = (st, t)"
  shows "Ack \<notin> set t"
proof -
  obtain r tt where p: "promise_all2 (fetchUserChannels fuel up (id_u u1)) (fetchUserChannels fuel up (id_u u2)) = (r, tt)"
    by (cases "promise_all2 (fetchUserChannels fuel up (id_u u1)) (fetchUserChannels fuel up (id_u u2))")
  note both_loops(1) [OF p]
  then have "Ack \<notin> set tt" by (rule ack_remote)
  with assms show ?thesis
    by (auto simp: scenario_two_users_def p split: outcome.splits option.splits prod.splits)
qed

lemma ack_two_users_sm:
  assumes "two_users_sm fuel up u1 u2 = (st, t)"
  shows "Ack \<notin> set t"
proof -
  obtain r tt where p: "promise_all2 (fetchUserChannels_sm fuel up (id_u u1)) (fetchUserChannels_sm fuel up (id_u u2)) = (r, tt)"
    by (cases "promise_all2 (fetchUserChannels_sm fuel up (id_u u1)) (fetchUserChannels_sm fuel up (id_u u2))")
  note both_loops_sm(1) [OF p]
  then have "Ack \<notin> set tt" by (rule ack_remote)
  with assms show ?thesis
    by (auto simp: two_users_sm_def p split: outcome.splits option.splits prod.splits)
qed

lemma failures_promise_all_Inl:
  "promise_all (map (users_info up) ids) = Inl e \<Longrightarrow>
   failures up (map UsersInfo ids) \<noteq> [] \<and> hd (failures up (map UsersInfo ids)) = e"
  by (induction ids) (auto split: sum.splits)

lemma failures_promise_all_Inr:
  "promise_all (map (users_info up) ids) = Inr us \<Longrightarrow> failures up (map UsersInfo ids) = []"
  by (induction ids arbitrary: us) (auto split: sum.splits)

lemma failures_fetchUserChannels:
  "fetchUserChannels fuel up u = (r, t) \<Longrightarrow>
   failures up t = (case r of Threw e \<Rightarrow> [e] | Returned a \<Rightarrow> [] | Awaiting \<Rightarrow> [])"
  unfolding fetchUserChannels_def by (rule failures_fetch_loop)

lemma failures_fetchUserChannels_sm:
  "fetchUserChannels_sm fuel up u = (r, t) \<Longrightarrow>
   failures up t = (case r of Threw e \<Rightarrow> [e] | Returned a \<Rightarrow> [] | Awaiting \<Rightarrow> [])"
  unfolding fetchUserChannels_sm_def by (rule failures_fetch_loop_sm)

lemma failures_scenario_one_user:
  assumes "scenario_one_user fuel up u = (st, t)" and "failures up t \<noteq> []"
  shows "st = Completed \<and> says t = [error_message (hd (failures up t))]"
proof -
  obtain r t1 where f: "fetchUserChannels fuel up (id_u u) = (r, t1)"
    by (cases "fetchUserChannels fuel up (id_u u)")
  note F = failures_fetchUserChannels [OF f] and S = says_fetchUserChannels [OF f]
  show ?thesis using assms F S
    by (auto simp: scenario_one_user_def f split: outcome.splits option.splits)
qed

lemma failures_one_user_sm:
  assumes "one_user_sm fuel up u = (st, t)" and "failures up t \<noteq> []"
  shows "st = Completed \<and> says t = [error_message_sm (hd (failures up t))]"
proof -
  obtain r t1 where f: "fetchUserChannels_sm fuel up (id_u u) = (r, t1)"
    by (cases "fetchUserChannels_sm fuel up (id_u u)")
  note F = failures_fetchUserChannels_sm [OF f] and S = says_fetchUserChannels_sm [OF f]
  show ?thesis using assms F S
    by (auto simp: one_user_sm_def f split: outcome.splits option.splits)
qed

lemma failures_scenario_two_users:
  assumes "scenario_two_users fuel up u1 u2 = (st, t)" and "failures up t \<noteq> []"
    and "st = Completed"
  shows "says t = [error_message (hd (failures up t))]"
proof -
  obtain r tt where p: "promise_all2 (fetchUserChannels fuel up (id_u u1)) (fetchUserChannels fuel up (id_u u2)) = (r, tt)"
    by (cases "promise_all2 (fetchUserChannels fuel up (id_u u1)) (fetchUserChannels fuel up (id_u u2))")
  note R = both_loops(1) [OF p] and T = both_loops(2) [OF p] and Q = both_loops(3) [OF p]
  from R have S: "says tt = []" by (rule says_remote)
  show ?thesis
  proof (cases r)
    case (Returned c)
    with Q have "failures up tt = []" by simp
    with assms Returned show ?thesis
      by (auto simp: scenario_two_users_def p split: option.splits prod.splits)
  next
    case (Threw e)
    with T have "failures up tt \<noteq> []" "hd (failures up tt) = e" by simp_all
    with assms Threw S show ?thesis by (auto simp: scenario_two_users_def p)
  next
    case Awaiting
    with assms show ?thesis by (simp add: scenario_two_users_def p)
  qed
qed

lemma failures_two_users_sm:
  assumes "two_users_sm fuel up u1 u2 = (st, t)" and "failures up t \<noteq> []"
    and "st = Completed"
  shows "says t = [error_message_sm (hd (failures up t))]"
proof -
  obtain r tt where p: "promise_all2 (fetchUserChannels_sm fuel up (id_u u1)) (fetchUserChannels_sm fuel up (id_u u2)) = (r, tt)"
    by (cases "promise_all2 (fetchUserChannels_sm fuel up (id_u u1)) (fetchUserChannels_sm fuel up (id_u u2))")
  note R = both_loops_sm(1) [OF p] and T = both_loops_sm(2) [OF p] and Q = both_loops_sm(3) [OF p]
  from R have S: "says tt = []" by (rule says_remote)
  show ?thesis
  proof (cases r)
    case (Returned c)
    with Q have "failures up tt = []" by simp
    with assms Returned show ?thesis
      by (auto simp: two_users_sm_def p split: option.splits prod.splits)
  next
    case (Threw e)
    with T have "failures up tt \<noteq> []" "hd (failures up tt) = e" by simp_all
    with assms Threw S show ?thesis by (auto simp: two_users_sm_def p)
  next
    case Awaiting
    with assms show ?thesis by (simp add: two_users_sm_def p)
  qed
qed

text \<open>
  With two users, a failed request of the second loop may be listed while the handler
  has not completed: the request is issued and its answer has to wait for the first
  loop's. One more request of the first loop and the failure is answered.
\<close>

lemma scenario_two_users_answered:
  assumes "scenario_two_users fuel up u1 u2 = (Unfinished, t)" and "failures up t \<noteq> []"
  shows "fst (scenario_two_users (Suc fuel) up u1 u2) = Completed \<and>
         says (snd (scenario_two_users (Suc fuel) up u1 u2)) = [error_message (hd (failures up t))]"
proof -
  let ?p1 = "fetchUserChannels fuel up (id_u u1)" and ?p2 = "fetchUserChannels fuel up (id_u u2)"
  let ?q1 = "fetchUserChannels (Suc fuel) up (id_u u1)" and ?q2 = "fetchUserChannels (Suc fuel) up (id_u u2)"
  obtain r tt where p: "promise_all2 ?p1 ?p2 = (r, tt)"
    by (cases "promise_all2 ?p1 ?p2")
  note P = both_loops(4) [OF p]
  from assms(1) have r: "r = Awaiting" and t: "tt = t"
    by (auto simp: scenario_two_users_def p split: outcome.splits option.splits)
  with P assms(2) have p2: "fst ?p2 = Threw (hd (failures up t))" by simp
  from p r have "fst (promise_all2 ?p1 ?p2) = Awaiting" by simp
  with p2 have a1: "fst ?p1 = Awaiting" unfolding promise_all2_Awaiting by auto
  from fetchUserChannels_extended [of fuel up "id_u u1" 1 0] a1
  have l1: "fuel < length (snd ?q1)" by simp
  from fetchUserChannels_extended [of fuel up "id_u u2" 1 0] p2
  have q2: "?q2 = ?p2" by simp
  from l1 length_fetchUserChannels [of fuel up "id_u u2"]
  have "length (snd ?p2) < length (snd ?q1)" by simp
  with p2 have "fst (promise_all2 ?q1 ?p2) = Threw (hd (failures up t))"
    by (rule promise_all2_answered)
  moreover obtain r' t' where q: "promise_all2 ?q1 ?q2 = (r', t')"
    by (cases "promise_all2 ?q1 ?q2")
  moreover from both_loops(1) [OF q] have "says t' = []" by (rule says_remote)
  ultimately show ?thesis by (simp add: scenario_two_users_def q2)
qed

lemma two_users_sm_answered:
  assumes "two_users_sm fuel up u1 u2 = (Unfinished, t)" and "failures up t \<noteq> []"
  shows "fst (two_users_sm (Suc fuel) up u1 u2) = Completed \<and>
         says (snd (two_users_sm (Suc fuel) up u1 u2)) = [error_message_sm (hd (failures up t))]"
proof -
  let ?p1 = "fetchUserChannels_sm fuel up (id_u u1)" and ?p2 = "fetchUserChannels_sm fuel up (id_u u2)"
  let ?q1 = "fetchUserChannels_sm (Suc fuel) up (id_u u1)" and ?q2 = "fetchUserChannels_sm (Suc fuel) up (id_u u2)"
  obtain r tt where p: "promise_all2 ?p1 ?p2 = (r, tt)"
    by (cases "promise_all2 ?p1 ?p2")
  note P = both_loops_sm(4) [OF p]
  from assms(1) have r: "r = Awaiting" and t: "tt = t"
    by (auto simp: two_users_sm_def p split: outcome.splits option.splits)
  with P assms(2) have p2: "fst ?p2 = Threw (hd (failures up t))" by simp
  from p r have "fst (promise_all2 ?p1 ?p2) = Awaiting" by simp
  with p2 have a1: "fst ?p1 = Awaiting" unfolding promise_all2_Awaiting by auto
  from fetchUserChannels_sm_extended [of fuel up "id_u u1" 1 0] a1
  have l1: "fuel < length (snd ?q1)" by simp
  from fetchUserChannels_sm_extended [of fuel up "id_u u2" 1 0] p2
  have q2: "?q2 = ?p2" by simp
  from l1 length_fetchUserChannels_sm [of fuel up "id_u u2"]
  have "length (snd ?p2) < length (snd ?q1)" by simp
  with p2 have "fst (promise_all2 ?q1 ?p2) = Threw (hd (failures up t))"
    by (rule promise_all2_answered)
  moreover obtain r' t' where q: "promise_all2 ?q1 ?q2 = (r', t')"
    by (cases "promise_all2 ?q1 ?q2")
  moreover from both_loops_sm(1) [OF q] have "says t' = []" by (rule says_remote)
  ultimately show ?thesis by (simp add: two_users_sm_def q2)
qed

lemma scenario_one_user_unfinished:
  "fst (scenario_one_user fuel up u) = Unfinished \<longleftrightarrow> more_pages up (id_u u) None fuel"
  using fetch_loop_more_pages [of fuel up "id_u u" "[]" None]
  by (auto simp: scenario_one_user_def fetchUserChannels_def
      split: prod.splits outcome.splits option.splits)

lemma one_user_sm_unfinished:
  "fst (one_user_sm fuel up u) = Unfinished \<longleftrightarrow> more_pages up (id_u u) None fuel"
  using fetch_loop_sm_more_pages [of fuel up "id_u u" "[]" None]
  by (auto simp: one_user_sm_def fetchUserChannels_sm_def
      split: prod.splits outcome.splits option.splits)

lemma scenario_two_users_awaiting:
  "fst (scenario_two_users fuel up u1 u2) = Unfinished \<longleftrightarrow>
   fst (promise_all2 (fetchUserChannels fuel up (id_u u1)) (fetchUserChannels fuel up (id_u u2))) = Awaiting"
  by (auto simp: scenario_two_users_def split: prod.splits outcome.splits option.splits)

lemma two_users_sm_awaiting:
  "fst (two_users_sm fuel up u1 u2) = Unfinished \<longleftrightarrow>
   fst (promise_all2 (fetchUserChannels_sm fuel up (id_u u1)) (fetchUserChannels_sm fuel up (id_u u2))) = Awaiting"
  by (auto simp: two_users_sm_def split: prod.splits outcome.splits option.splits)

lemma awaiting_length:
  "fst (fetchUserChannels fuel up u) = Awaiting \<Longrightarrow> length (snd (fetchUserChannels fuel up u)) = fuel"
  "fst (fetchUserChannels_sm fuel up u) = Awaiting \<Longrightarrow> length (snd (fetchUserChannels_sm fuel up u)) = fuel"
  using length_fetch_loop [of fuel up u "[]" None] length_fetch_loop_sm [of fuel up u "[]" None]
  unfolding fetchUserChannels_def fetchUserChannels_sm_def
  by (cases "fetch_loop fuel up u [] None"; cases "fetch_loop_sm fuel up u [] None"; simp)+

lemma scenario_two_users_unfinished:
  "fst (scenario_two_users fuel up u1 u2) = Unfinished \<longleftrightarrow>
     (more_pages up (id_u u1) None fuel \<and> \<not> page_failure up (id_u u2) None (fuel - 1)) \<or>
     (more_pages up (id_u u2) None fuel \<and> \<not> page_failure up (id_u u1) None fuel)"
proof -
  let ?p1 = "fetchUserChannels fuel up (id_u u1)" and ?p2 = "fetchUserChannels fuel up (id_u u2)"
  have a: "fst ?p1 = Awaiting \<longleftrightarrow> more_pages up (id_u u1) None fuel"
    "fst ?p2 = Awaiting \<longleftrightarrow> more_pages up (id_u u2) None fuel"
    unfolding fetchUserChannels_def by (rule fetch_loop_more_pages)+
  have f: "(\<exists>e. fst ?p1 = Threw e) \<longleftrightarrow> page_failure up (id_u u1) None fuel"
    unfolding fetchUserChannels_def by (rule fetch_loop_page_failure)
  have b: "(\<exists>e. fst ?p2 = Threw e \<and> length (snd ?p2) < fuel) \<longleftrightarrow> page_failure up (id_u u2) None (fuel - 1)"
    unfolding fetchUserChannels_def by (rule fetch_loop_fails_before)
  have "fst (scenario_two_users fuel up u1 u2) = Unfinished \<longleftrightarrow>
      (fst ?p1 = Awaiting \<and> \<not> (\<exists>e. fst ?p2 = Threw e \<and> length (snd ?p2) < length (snd ?p1))) \<or>
      (fst ?p2 = Awaiting \<and> (\<forall>e. fst ?p1 \<noteq> Threw e))"
    unfolding scenario_two_users_awaiting promise_all2_Awaiting ..
  also have "\<dots> \<longleftrightarrow>
      (fst ?p1 = Awaiting \<and> \<not> (\<exists>e. fst ?p2 = Threw e \<and> length (snd ?p2) < fuel)) \<or>
      (fst ?p2 = Awaiting \<and> \<not> (\<exists>e. fst ?p1 = Threw e))"
    using awaiting_length(1) [of fuel up "id_u u1"] by auto
  finally show ?thesis unfolding a f b .
qed

lemma two_users_sm_unfinished:
  "fst (two_users_sm fuel up u1 u2) = Unfinished \<longleftrightarrow>
     (more_pages up (id_u u1) None fuel \<and> \<not> page_failure up (id_u u2) None (fuel - 1)) \<or>
     (more_pages up (id_u u2) None fuel \<and> \<not> page_failure up (id_u u1) None fuel)"
proof -
  let ?p1 = "fetchUserChannels_sm fuel up (id_u u1)" and ?p2 = "fetchUserChannels_sm fuel up (id_u u2)"
  have a: "fst ?p1 = Awaiting \<longleftrightarrow> more_pages up (id_u u1) None fuel"
    "fst ?p2 = Awaiting \<longleftrightarrow> more_pages up (id_u u2) None fuel"
    unfolding fetchUserChannels_sm_def by (rule fetch_loop_sm_more_pages)+
  have f: "(\<exists>e. fst ?p1 = Threw e) \<longleftrightarrow> page_failure up (id_u u1) None fuel"
    unfolding fetchUserChannels_sm_def by (rule fetch_loop_sm_page_failure)
  have b: "(\<exists>e. fst ?p2 = Threw e \<and> length (snd ?p2) < fuel) \<longleftrightarrow> page_failure up (id_u u2) None (fuel - 1)"
    unfolding fetchUserChannels_sm_def by (rule fetch_loop_sm_fails_before)
  have "fst (two_users_sm fuel up u1 u2) = Unfinished \<longleftrightarrow>
      (fst ?p1 = Awaiting \<and> \<not> (\<exists>e. fst ?p2 = Threw e \<and> length (snd ?p2) < length (snd ?p1))) \<or>
      (fst ?p2 = Awaiting \<and> (\<forall>e. fst ?p1 \<noteq> Threw e))"
    unfolding two_users_sm_awaiting promise_all2_Awaiting ..
  also have "\<dots> \<longleftrightarrow>
      (fst ?p1 = Awaiting \<and> \<not> (\<exists>e. fst ?p2 = Threw e \<and> length (snd ?p2) < fuel)) \<or>
      (fst ?p2 = Awaiting \<and> \<not> (\<exists>e. fst ?p1 = Threw e))"
    using awaiting_length(2) [of fuel up "id_u u1"] by auto
  finally show ?thesis unfolding a f b .
qed

lemma status_cases: "st \<noteq> Unfinished \<longleftrightarrow> st = Completed"
  by (cases st) auto

lemma scenario_one_user_stable:
  assumes "fst (scenario_one_user fuel up u) = Completed"
  shows "scenario_one_user (fuel + k) up u = scenario_one_user fuel up u"
proof -
  from assms have "fst (fetchUserChannels fuel up (id_u u)) \<noteq> Awaiting"
    by (auto simp: scenario_one_user_def split: prod.splits outcome.splits)
  then have "fetchUserChannels (fuel + k) up (id_u u) = fetchUserChannels fuel up (id_u u)"
    unfolding fetchUserChannels_def by (rule fetch_loop_stable)
  then show ?thesis by (simp add: scenario_one_user_def)
qed

lemma one_user_sm_stable:
  assumes "fst (one_user_sm fuel up u) = Completed"
  shows "one_user_sm (fuel + k) up u = one_user_sm fuel up u"
proof -
  from assms have "fst (fetchUserChannels_sm fuel up (id_u u)) \<noteq> Awaiting"
    by (auto simp: one_user_sm_def split: prod.splits outcome.splits)
  then have "fetchUserChannels_sm (fuel + k) up (id_u u) = fetchUserChannels_sm fuel up (id_u u)"
    unfolding fetchUserChannels_sm_def by (rule fetch_loop_sm_stable)
  then show ?thesis by (simp add: one_user_sm_def)
qed

lemma scenario_two_users_stable:
  assumes "fst (scenario_two_users fuel up u1 u2) = Completed"
  shows "scenario_two_users (fuel + k) up u1 u2 = scenario_two_users fuel up u1 u2"
proof -
  from assms scenario_two_users_awaiting [of fuel up u1 u2]
  have "fst (promise_all2 (fetchUserChannels fuel up (id_u u1)) (fetchUserChannels fuel up (id_u u2))) \<noteq> Awaiting"
    by simp
  then have "promise_all2 (fetchUserChannels (fuel + k) up (id_u u1)) (fetchUserChannels (fuel + k) up (id_u u2)) =
      promise_all2 (fetchUserChannels fuel up (id_u u1)) (fetchUserChannels fuel up (id_u u2))"
    by (rule both_loops_stable)
  then show ?thesis by (simp add: scenario_two_users_def)
qed

lemma two_users_sm_stable:
  assumes "fst (two_users_sm fuel up u1 u2) = Completed"
  shows "two_users_sm (fuel + k) up u1 u2 = two_users_sm fuel up u1 u2"
proof -
  from assms two_users_sm_awaiting [of fuel up u1 u2]
  have "fst (promise_all2 (fetchUserChannels_sm fuel up (id_u u1)) (fetchUserChannels_sm fuel up (id_u u2))) \<noteq> Awaiting"
    by simp
  then have "promise_all2 (fetchUserChannels_sm (fuel + k) up (id_u u1)) (fetchUserChannels_sm (fuel + k) up (id_u u2)) =
      promise_all2 (fetchUserChannels_sm fuel up (id_u u1)) (fetchUserChannels_sm fuel up (id_u u2))"
    by (rule both_loops_sm_stable)
  then show ?thesis by (simp add: two_users_sm_def)
qed




subsection \<open>The handlers\<close>

lemma ack_handler:
  "\<exists>rest. snd (handler fuel up command_text) = Ack # rest \<and> Ack \<notin> set rest"
  by (cases rule: handler_cases [of command_text fuel up])
    (auto dest: ack_scenario_one_user ack_scenario_two_users)

lemma ack_handler_sm:
  "\<exists>rest. snd (handler_sm fuel up command_text) = Ack # rest \<and> Ack \<notin> set rest"
  by (cases rule: handler_sm_cases [of command_text fuel up])
    (auto dest: ack_one_user_sm ack_two_users_sm)

lemma says_handler:
  "(fst (handler fuel up command_text) = Completed \<longrightarrow> length (says (snd (handler fuel up command_text))) = 1)
   \<and> (fst (handler fuel up command_text) = Unfinished \<longrightarrow> says (snd (handler fuel up command_text)) = [])"
  by (cases rule: handler_cases [of command_text fuel up])
    (auto dest: says_scenario_one_user says_scenario_two_users)

lemma says_handler_sm:
  "(fst (handler_sm fuel up command_text) = Completed \<longrightarrow> length (says (snd (handler_sm fuel up command_text))) = 1)
   \<and> (fst (handler_sm fuel up command_text) = Unfinished \<longrightarrow> says (snd (handler_sm fuel up command_text)) = [])"
  by (cases rule: handler_sm_cases [of command_text fuel up])
    (auto dest: says_one_user_sm says_two_users_sm)

lemma failures_handler:
  assumes "failures up (snd (handler fuel up command_text)) \<noteq> []"
    and "fst (handler fuel up command_text) = Completed"
  shows "says (snd (handler fuel up command_text)) =
           [error_message (hd (failures up (snd (handler fuel up command_text))))]"
proof (cases rule: handler_cases [of command_text fuel up])
  case NoText
  with assms show ?thesis by simp
next
  case (Usage tx)
  with assms show ?thesis by simp
next
  case (LookupFailed tx e)
  with failures_promise_all_Inl [of up "userIds tx" e] show ?thesis by simp
next
  case (One tx userInfo st t)
  with assms failures_promise_all_Inr [of up "userIds tx" userInfo]
    failures_scenario_one_user [of fuel up "userInfo ! 0" st t]
  show ?thesis by simp
next
  case (Two tx userInfo st t)
  with assms failures_promise_all_Inr [of up "userIds tx" userInfo]
    failures_scenario_two_users [of fuel up "userInfo ! 0" "userInfo ! 1" st t]
  show ?thesis by simp
next
  case (Many tx userInfo)
  with assms failures_promise_all_Inr [of up "userIds tx" userInfo] show ?thesis by simp
qed

lemma failures_handler_sm:
  assumes "failures up (snd (handler_sm fuel up command_text)) \<noteq> []"
    and "fst (handler_sm fuel up command_text) = Completed"
  shows "says (snd (handler_sm fuel up command_text)) =
           [error_message_sm (hd (failures up (snd (handler_sm fuel up command_text))))]"
proof (cases rule: handler_sm_cases [of command_text fuel up])
  case Usage
  with assms show ?thesis by simp
next
  case (LookupFailed e)
  with failures_promise_all_Inl [of up "userIds_sm (or_empty command_text)" e]
  show ?thesis by simp
next
  case (One userInfo st t)
  with assms failures_promise_all_Inr [of up "userIds_sm (or_empty command_text)" userInfo]
    failures_one_user_sm [of fuel up "userInfo ! 0" st t]
  show ?thesis by simp
next
  case (Two userInfo st t)
  with assms failures_promise_all_Inr [of up "userIds_sm (or_empty command_text)" userInfo]
    failures_two_users_sm [of fuel up "userInfo ! 0" "userInfo ! 1" st t]
  show ?thesis by simp
qed

lemma still_fetching_one:
  "length us = 1 \<Longrightarrow> still_fetching fuel up us = more_pages up (id_u (us ! 0)) None fuel"
  by (cases us) (auto simp: still_fetching_def split: list.splits)

lemma still_fetching_two:
  "length us = 2 \<Longrightarrow> still_fetching fuel up us =
     ((more_pages up (id_u (us ! 0)) None fuel \<and> \<not> page_failure up (id_u (us ! 1)) None (fuel - 1)) \<or>
      (more_pages up (id_u (us ! 1)) None fuel \<and> \<not> page_failure up (id_u (us ! 0)) None fuel))"
  by (cases us; cases "tl us") (auto simp: still_fetching_def split: list.splits)

lemma still_fetching_other:
  "length us = 0 \<or> 2 < length us \<Longrightarrow> \<not> still_fetching fuel up us"
  by (auto simp: still_fetching_def split: list.splits)

lemma handler_unfinished:
  "fst (handler fuel up command_text) = Unfinished \<longleftrightarrow>
     (\<exists>tx us. command_text = Some tx \<and> promise_all (map (users_info up) (userIds tx)) = Inr us \<and>
        still_fetching fuel up us)"
proof (cases rule: handler_cases [of command_text fuel up])
  case NoText
  then show ?thesis by simp
next
  case (Usage tx)
  then show ?thesis by (simp add: still_fetching_def)
next
  case (LookupFailed tx e)
  then show ?thesis by simp
next
  case (One tx userInfo st t)
  from One(3) have "length userInfo = length (userIds tx)"
    by (simp add: length_promise_all)
  with One(2) have "still_fetching fuel up userInfo = more_pages up (id_u (userInfo ! 0)) None fuel"
    by (simp add: still_fetching_one)
  with One scenario_one_user_unfinished [of fuel up "userInfo ! 0"] show ?thesis by simp
next
  case (Two tx userInfo st t)
  from Two(3) have "length userInfo = length (userIds tx)"
    by (simp add: length_promise_all)
  with Two(2) have "length userInfo = 2" by simp
  note still_fetching_two [OF this, of fuel up]
  with Two scenario_two_users_unfinished [of fuel up "userInfo ! 0" "userInfo ! 1"]
  show ?thesis by simp
next
  case (Many tx userInfo)
  from Many(3) have "length userInfo = length (userIds tx)"
    by (simp add: length_promise_all)
  with Many(2) have "\<not> still_fetching fuel up userInfo" by (simp add: still_fetching_other)
  with Many show ?thesis by simp
qed

lemma handler_sm_unfinished:
  "fst (handler_sm fuel up command_text) = Unfinished \<longleftrightarrow>
     (\<exists>us. promise_all (map (users_info up) (userIds_sm (or_empty command_text))) = Inr us \<and>
        still_fetching fuel up us)"
proof (cases rule: handler_sm_cases [of command_text fuel up])
  case Usage
  have "\<And>us. promise_all (map (users_info up) (userIds_sm (or_empty command_text))) = Inr us \<Longrightarrow>
      \<not> still_fetching fuel up us"
  proof -
    fix us assume "promise_all (map (users_info up) (userIds_sm (or_empty command_text))) = Inr us"
    then have "length us = length (userIds_sm (or_empty command_text))"
      by (simp add: length_promise_all)
    with Usage(1) show "\<not> still_fetching fuel up us" by (simp add: still_fetching_other)
  qed
  with Usage(2) show ?thesis by auto
next
  case (LookupFailed e)
  then show ?thesis by simp
next
  case (One userInfo st t)
  from One(2) have "length userInfo = length (userIds_sm (or_empty command_text))"
    by (simp add: length_promise_all)
  with One(1) have "still_fetching fuel up userInfo = more_pages up (id_u (userInfo ! 0)) None fuel"
    by (simp add: still_fetching_one)
  with One one_user_sm_unfinished [of fuel up "userInfo ! 0"] show ?thesis by simp
next
  case (Two userInfo st t)
  from Two(2) have "length userInfo = length (userIds_sm (or_empty command_text))"
    by (simp add: length_promise_all)
  with Two(1) have "length userInfo = 2" by simp
  note still_fetching_two [OF this, of fuel up]
  with Two two_users_sm_unfinished [of fuel up "userInfo ! 0" "userInfo ! 1"]
  show ?thesis by simp
qed

lemma handler_stable:
  assumes "fst (handler fuel up command_text) = Completed"
  shows "handler (fuel + k) up command_text = handler fuel up command_text"
proof (cases rule: handler_cases [of command_text fuel up])
  case NoText
  then show ?thesis by (simp add: handler_def)
next
  case (Usage tx)
  then show ?thesis by (simp add: handler_def)
next
  case (LookupFailed tx e)
  then show ?thesis by (simp add: handler_def Let_def)
next
  case (One tx userInfo st t)
  with assms have "fst (scenario_one_user fuel up (userInfo ! 0)) = Completed" by simp
  then have "scenario_one_user (fuel + k) up (userInfo ! 0) = scenario_one_user fuel up (userInfo ! 0)"
    by (rule scenario_one_user_stable)
  moreover from One(2) have "userIds tx \<noteq> []" by auto
  ultimately show ?thesis using One(1-3) by (simp add: handler_def Let_def)
next
  case (Two tx userInfo st t)
  with assms have "fst (scenario_two_users fuel up (userInfo ! 0) (userInfo ! 1)) = Completed" by simp
  then have "scenario_two_users (fuel + k) up (userInfo ! 0) (userInfo ! 1) =
      scenario_two_users fuel up (userInfo ! 0) (userInfo ! 1)"
    by (rule scenario_two_users_stable)
  moreover from Two(2) have "userIds tx \<noteq> []" by auto
  ultimately show ?thesis using Two(1-3) by (simp add: handler_def Let_def)
next
  case (Many tx userInfo)
  from Many(2) have "userIds tx \<noteq> []" by auto
  with Many(1-3) show ?thesis by (simp add: handler_def Let_def)
qed

lemma handler_sm_stable:
  assumes "fst (handler_sm fuel up command_text) = Completed"
  shows "handler_sm (fuel + k) up command_text = handler_sm fuel up command_text"
proof (cases rule: handler_sm_cases [of command_text fuel up])
  case Usage
  from Usage(1) show ?thesis by (auto simp: handler_sm_def Let_def)
next
  case (LookupFailed e)
  from LookupFailed(1,2) show ?thesis by (auto simp: handler_sm_def Let_def)
next
  case (One userInfo st t)
  with assms have "fst (one_user_sm fuel up (userInfo ! 0)) = Completed" by simp
  then have "one_user_sm (fuel + k) up (userInfo ! 0) = one_user_sm fuel up (userInfo ! 0)"
    by (rule one_user_sm_stable)
  with One(1,2) show ?thesis by (auto simp: handler_sm_def Let_def)
next
  case (Two userInfo st t)
  with assms have "fst (two_users_sm fuel up (userInfo ! 0) (userInfo ! 1)) = Completed" by simp
  then have "two_users_sm (fuel + k) up (userInfo ! 0) (userInfo ! 1) =
      two_users_sm fuel up (userInfo ! 0) (userInfo ! 1)"
    by (rule two_users_sm_stable)
  with Two(1,2) show ?thesis by (auto simp: handler_sm_def Let_def)
qed

text \<open>A failed request that is listed is answered with at most one more request per loop.\<close>

lemma handler_answered:
  assumes "failures up (snd (handler fuel up command_text)) \<noteq> []"
  shows "fst (handler (Suc fuel) up command_text) = Completed \<and>
         says (snd (handler (Suc fuel) up command_text)) =
           [error_message (hd (failures up (snd (handler fuel up command_text))))]"
proof (cases "fst (handler fuel up command_text)")
  case Completed
  then have "handler (fuel + 1) up command_text = handler fuel up command_text"
    by (rule handler_stable)
  with failures_handler [OF assms Completed] Completed show ?thesis by simp
next
  case Unfinished
  show ?thesis
  proof (cases rule: handler_cases [of command_text fuel up])
    case NoText
    with Unfinished show ?thesis by simp
  next
    case (Usage tx)
    with Unfinished show ?thesis by simp
  next
    case (LookupFailed tx e)
    with Unfinished show ?thesis by simp
  next
    case (One tx userInfo st t)
    with Unfinished assms failures_promise_all_Inr [of up "userIds tx" userInfo]
      failures_scenario_one_user [of fuel up "userInfo ! 0" st t]
    show ?thesis by simp
  next
    case (Two tx userInfo st t)
    with Unfinished have st: "st = Unfinished" by simp
    from Two assms failures_promise_all_Inr [of up "userIds tx" userInfo]
    have f: "failures up t \<noteq> []"
      and h: "hd (failures up (snd (handler fuel up command_text))) = hd (failures up t)"
      by simp_all
    from Two(4) st have "scenario_two_users fuel up (userInfo ! 0) (userInfo ! 1) = (Unfinished, t)"
      by simp
    note a = scenario_two_users_answered [OF this f]
    obtain st' t' where s': "scenario_two_users (Suc fuel) up (userInfo ! 0) (userInfo ! 1) = (st', t')"
      by (cases "scenario_two_users (Suc fuel) up (userInfo ! 0) (userInfo ! 1)")
    from Two(2) have "userIds tx \<noteq> []" by auto
    with Two(1-3) s' have "handler (Suc fuel) up command_text =
        (st', Ack # map UsersInfo (userIds tx) @ t')"
      by (simp add: handler_def Let_def)
    with a s' show ?thesis unfolding h by simp
  next
    case (Many tx userInfo)
    with Unfinished show ?thesis by simp
  qed
qed

lemma handler_sm_answered:
  assumes "failures up (snd (handler_sm fuel up command_text)) \<noteq> []"
  shows "fst (handler_sm (Suc fuel) up command_text) = Completed \<and>
         says (snd (handler_sm (Suc fuel) up command_text)) =
           [error_message_sm (hd (failures up (snd (handler_sm fuel up command_text))))]"
proof (cases "fst (handler_sm fuel up command_text)")
  case Completed
  then have "handler_sm (fuel + 1) up command_text = handler_sm fuel up command_text"
    by (rule handler_sm_stable)
  with failures_handler_sm [OF assms Completed] Completed show ?thesis by simp
next
  case Unfinished
  show ?thesis
  proof (cases rule: handler_sm_cases [of command_text fuel up])
    case Usage
    with Unfinished show ?thesis by simp
  next
    case (LookupFailed e)
    with Unfinished show ?thesis by simp
  next
    case (One userInfo st t)
    with Unfinished assms
      failures_promise_all_Inr [of up "userIds_sm (or_empty command_text)" userInfo]
      failures_one_user_sm [of fuel up "userInfo ! 0" st t]
    show ?thesis by simp
  next
    case (Two userInfo st t)
    with Unfinished have st: "st = Unfinished" by simp
    from Two assms failures_promise_all_Inr [of up "userIds_sm (or_empty command_text)" userInfo]
    have f: "failures up t \<noteq> []"
      and h: "hd (failures up (snd (handler_sm fuel up command_text))) = hd (failures up t)"
      by simp_all
    from Two(3) st have "two_users_sm fuel up (userInfo ! 0) (userInfo ! 1) = (Unfinished, t)"
      by simp
    note a = two_users_sm_answered [OF this f]
    obtain st' t' where s': "two_users_sm (Suc fuel) up (userInfo ! 0) (userInfo ! 1) = (st', t')"
      by (cases "two_users_sm (Suc fuel) up (userInfo ! 0) (userInfo ! 1)")
    with Two(1,2) have "handler_sm (Suc fuel) up command_text =
        (st', Ack # map UsersInfo (userIds_sm (or_empty command_text)) @ t')"
      by (auto simp: handler_sm_def Let_def)
    with a s' show ?thesis unfolding h by simp
  qed
qed


subsection \<open>The example directory\<close>

lemmas parse_defs = userIds_def users_def userIds_sm_def users_sm_def trim_def split_ws.simps
  match_here_def isSpace_def isIdChar_def utf16_def

lemma userIds_three:
  "userIds (utf16 ''<@U111> <@U222> <@U333>'') = [utf16 ''U111'', utf16 ''U222'', utf16 ''U333'']"
  "userIds_sm (utf16 ''<@U111> <@U222> <@U333>'') = [utf16 ''U111'', utf16 ''U222'', utf16 ''U333'']"
  by (simp_all add: parse_defs)

lemma userIds_two:
  "userIds (utf16 ''<@U111> <@U222>'') = [utf16 ''U111'', utf16 ''U222'']"
  "userIds_sm (utf16 ''<@U111> <@U222>'') = [utf16 ''U111'', utf16 ''U222'']"
  by (simp_all add: parse_defs)

lemma userIds_one:
  "userIds (utf16 ''<@U111>'') = [utf16 ''U111'']"
  "userIds_sm (utf16 ''<@U111>'') = [utf16 ''U111'']"
  by (simp_all add: parse_defs)

lemma userIds_empty_channels:
  "userIds (utf16 ''<@U333>'') = [utf16 ''U333'']"
  "userIds_sm (utf16 ''<@U333>'') = [utf16 ''U333'']"
  by (simp_all add: parse_defs)

lemma userIds_lookup_failing:
  "userIds (utf16 ''<@U999>'') = [utf16 ''U999'']"
  "userIds_sm (utf16 ''<@U999>'') = [utf16 ''U999'']"
  by (simp_all add: parse_defs)

lemma userIds_fetch_failing:
  "userIds (utf16 ''<@U111> <@U444>'') = [utf16 ''U111'', utf16 ''U444'']"
  "userIds_sm (utf16 ''<@U111> <@U444>'') = [utf16 ''U111'', utf16 ''U444'']"
  by (simp_all add: parse_defs)

lemma userIds_early_late:
  "userIds (utf16 ''<@U555> <@U444>'') = [utf16 ''U555'', utf16 ''U444'']"
  "userIds_sm (utf16 ''<@U555> <@U444>'') = [utf16 ''U555'', utf16 ''U444'']"
  by (simp_all add: parse_defs)

lemma page_cursor_examples [simp]:
  "page_cursor alice_page1 = Some (utf16 ''p2'')" "page_cursor alice_page2 = None"
  "page_cursor bob_page = None" "page_cursor empty_page = None"
  by (simp_all add: page_cursor_def alice_page1_def alice_page2_def bob_page_def
      empty_page_def)

lemma directory_ends: "\<not> more_pages directory u None 2"
  by (simp add: directory_def numeral_2_eq_2)

lemma fetch_alice:
  "fetchUserChannels (Suc (Suc n)) directory (utf16 ''U111'') =
     (Returned [Some general, Some eng],
      [UsersConversations (utf16 ''U111'') None, UsersConversations (utf16 ''U111'') (Some (utf16 ''p2''))])"
  "fetchUserChannels_sm (Suc (Suc n)) directory (utf16 ''U111'') =
     (Returned [general, eng],
      [UsersConversations (utf16 ''U111'') None, UsersConversations (utf16 ''U111'') (Some (utf16 ''p2''))])"
proof -
  have 1: "users_conversations directory (utf16 ''U111'') None = Inr alice_page1"
    and 2: "users_conversations directory (utf16 ''U111'') (Some (utf16 ''p2'')) = Inr alice_page2"
    by (simp_all add: directory_def)
  show "fetchUserChannels (Suc (Suc n)) directory (utf16 ''U111'') =
     (Returned [Some general, Some eng],
      [UsersConversations (utf16 ''U111'') None, UsersConversations (utf16 ''U111'') (Some (utf16 ''p2''))])"
    unfolding fetchUserChannels_def
    by (simp add: fetch_loop_more [OF 1 page_cursor_examples(1)] fetch_loop_last [OF 2 page_cursor_examples(2)] page_elements_def
        alice_page1_def alice_page2_def del: fetch_loop.simps)
  show "fetchUserChannels_sm (Suc (Suc n)) directory (utf16 ''U111'') =
     (Returned [general, eng],
      [UsersConversations (utf16 ''U111'') None, UsersConversations (utf16 ''U111'') (Some (utf16 ''p2''))])"
    unfolding fetchUserChannels_sm_def
    by (simp add: fetch_loop_sm_more [OF 1 page_cursor_examples(1)] fetch_loop_sm_last [OF 2 page_cursor_examples(2)] page_channels_def
        alice_page1_def alice_page2_def del: fetch_loop_sm.simps)
qed

lemma fetch_bob:
  "fetchUserChannels (Suc n) directory (utf16 ''U222'') =
     (Returned [Some eng, Some random], [UsersConversations (utf16 ''U222'') None])"
  "fetchUserChannels_sm (Suc n) directory (utf16 ''U222'') =
     (Returned [eng, random], [UsersConversations (utf16 ''U222'') None])"
proof -
  have 1: "users_conversations directory (utf16 ''U222'') None = Inr bob_page"
    by (simp add: directory_def)
  show "fetchUserChannels (Suc n) directory (utf16 ''U222'') =
     (Returned [Some eng, Some random], [UsersConversations (utf16 ''U222'') None])"
    unfolding fetchUserChannels_def
    by (simp add: fetch_loop_last [OF 1 page_cursor_examples(3)] page_elements_def bob_page_def del: fetch_loop.simps)
  show "fetchUserChannels_sm (Suc n) directory (utf16 ''U222'') =
     (Returned [eng, random], [UsersConversations (utf16 ''U222'') None])"
    unfolding fetchUserChannels_sm_def
    by (simp add: fetch_loop_sm_last [OF 1 page_cursor_examples(3)] page_channels_def bob_page_def del: fetch_loop_sm.simps)
qed

lemma fetch_carol:
  "fetchUserChannels (Suc n) directory (utf16 ''U333'') =
     (Returned [], [UsersConversations (utf16 ''U333'') None])"
  "fetchUserChannels_sm (Suc n) directory (utf16 ''U333'') =
     (Returned [], [UsersConversations (utf16 ''U333'') None])"
proof -
  have 1: "users_conversations directory (utf16 ''U333'') None = Inr empty_page"
    by (simp add: directory_def)
  show "fetchUserChannels (Suc n) directory (utf16 ''U333'') =
     (Returned [], [UsersConversations (utf16 ''U333'') None])"
    unfolding fetchUserChannels_def
    by (simp add: fetch_loop_last [OF 1 page_cursor_examples(4)] page_elements_def empty_page_def del: fetch_loop.simps)
  show "fetchUserChannels_sm (Suc n) directory (utf16 ''U333'') =
     (Returned [], [UsersConversations (utf16 ''U333'') None])"
    unfolding fetchUserChannels_sm_def
    by (simp add: fetch_loop_sm_last [OF 1 page_cursor_examples(4)] page_channels_def empty_page_def del: fetch_loop_sm.simps)
qed

lemma fetch_dave:
  "fetchUserChannels (Suc n) directory (utf16 ''U444'') =
     (Threw (ApiError (utf16 ''missing_scope'')), [UsersConversations (utf16 ''U444'') None])"
  "fetchUserChannels_sm (Suc n) directory (utf16 ''U444'') =
     (Threw (ApiError (utf16 ''missing_scope'')), [UsersConversations (utf16 ''U444'') None])"
  by (simp_all add: fetchUserChannels_def fetchUserChannels_sm_def directory_def)

lemma fetch_erin:
  "fetchUserChannels (Suc (Suc n)) directory (utf16 ''U555'') =
     (Threw (ApiError (utf16 ''late_failure'')),
      [UsersConversations (utf16 ''U555'') None, UsersConversations (utf16 ''U555'') (Some (utf16 ''p2''))])"
  "fetchUserChannels_sm (Suc (Suc n)) directory (utf16 ''U555'') =
     (Threw (ApiError (utf16 ''late_failure'')),
      [UsersConversations (utf16 ''U555'') None, UsersConversations (utf16 ''U555'') (Some (utf16 ''p2''))])"
  "fetchUserChannels (Suc 0) directory (utf16 ''U555'') =
     (Awaiting, [UsersConversations (utf16 ''U555'') None])"
  "fetchUserChannels_sm (Suc 0) directory (utf16 ''U555'') =
     (Awaiting, [UsersConversations (utf16 ''U555'') None])"
proof -
  have 1: "users_conversations directory (utf16 ''U555'') None = Inr alice_page1"
    and 2: "users_conversations directory (utf16 ''U555'') (Some (utf16 ''p2'')) =
              Inl (ApiError (utf16 ''late_failure''))"
    by (simp_all add: directory_def)
  show "fetchUserChannels (Suc (Suc n)) directory (utf16 ''U555'') =
     (Threw (ApiError (utf16 ''late_failure'')),
      [UsersConversations (utf16 ''U555'') None, UsersConversations (utf16 ''U555'') (Some (utf16 ''p2''))])"
    unfolding fetchUserChannels_def
    by (simp add: fetch_loop_more [OF 1 page_cursor_examples(1)] fetch_loop_fail [OF 2]
        del: fetch_loop.simps)
  show "fetchUserChannels_sm (Suc (Suc n)) directory (utf16 ''U555'') =
     (Threw (ApiError (utf16 ''late_failure'')),
      [UsersConversations (utf16 ''U555'') None, UsersConversations (utf16 ''U555'') (Some (utf16 ''p2''))])"
    unfolding fetchUserChannels_sm_def
    by (simp add: fetch_loop_sm_more [OF 1 page_cursor_examples(1)] fetch_loop_sm_fail [OF 2]
        del: fetch_loop_sm.simps)
  show "fetchUserChannels (Suc 0) directory (utf16 ''U555'') =
     (Awaiting, [UsersConversations (utf16 ''U555'') None])"
    unfolding fetchUserChannels_def
    by (simp add: fetch_loop_more [OF 1 page_cursor_examples(1)] del: fetch_loop.simps(2))
  show "fetchUserChannels_sm (Suc 0) directory (utf16 ''U555'') =
     (Awaiting, [UsersConversations (utf16 ''U555'') None])"
    unfolding fetchUserChannels_sm_def
    by (simp add: fetch_loop_sm_more [OF 1 page_cursor_examples(1)] del: fetch_loop_sm.simps(2))
qed

lemma lookups [simp]:
  "users_info directory (utf16 ''U111'') = Inr alice"
  "users_info directory (utf16 ''U222'') = Inr bob"
  "users_info directory (utf16 ''U333'') = Inr carol"
  "users_info directory (utf16 ''U444'') = Inr dave"
  "users_info directory (utf16 ''U555'') = Inr erin"
  "users_info directory (utf16 ''U999'') = Inl (ApiError (utf16 ''user_not_found''))"
  by (simp_all add: directory_def alice_def bob_def carol_def dave_def erin_def)

lemma user_ids [simp]:
  "id_u alice = utf16 ''U111''" "id_u bob = utf16 ''U222''" "id_u carol = utf16 ''U333''"
  "id_u dave = utf16 ''U444''" "id_u erin = utf16 ''U555''"
  by (simp_all add: alice_def bob_def carol_def dave_def erin_def)

lemma handler_three:
  "handler fuel directory (Some (utf16 ''<@U111> <@U222> <@U333>'')) =
     (Completed, [Ack, UsersInfo (utf16 ''U111''), UsersInfo (utf16 ''U222''),
                  UsersInfo (utf16 ''U333''), Say max_two_users])"
  "handler_sm fuel directory (Some (utf16 ''<@U111> <@U222> <@U333>'')) =
     (Completed, [Ack, Say usage_hint_sm])"
  by (simp_all add: handler_def handler_sm_def userIds_three Let_def)

lemma handler_lookup_failing:
  "handler fuel directory (Some (utf16 ''<@U999>'')) =
     (Completed, [Ack, UsersInfo (utf16 ''U999''),
        ConsoleError (ApiError (utf16 ''user_not_found'')),
        Say (error_message (ApiError (utf16 ''user_not_found'')))])"
  "handler_sm fuel directory (Some (utf16 ''<@U999>'')) =
     (Completed, [Ack, UsersInfo (utf16 ''U999''),
        ConsoleError (ApiError (utf16 ''user_not_found'')),
        Say (error_message_sm (ApiError (utf16 ''user_not_found'')))])"
  by (simp_all add: handler_def handler_sm_def userIds_lookup_failing Let_def catch_error_def
      catch_error_sm_def)

lemma handler_fetch_failing:
  "handler 2 directory (Some (utf16 ''<@U111> <@U444>'')) =
     (Completed, [Ack, UsersInfo (utf16 ''U111''), UsersInfo (utf16 ''U444''),
        UsersConversations (utf16 ''U111'') None, UsersConversations (utf16 ''U444'') None,
        UsersConversations (utf16 ''U111'') (Some (utf16 ''p2'')),
        ConsoleError (ApiError (utf16 ''missing_scope'')),
        Say (error_message (ApiError (utf16 ''missing_scope'')))])"
  "handler_sm 2 directory (Some (utf16 ''<@U111> <@U444>'')) =
     (Completed, [Ack, UsersInfo (utf16 ''U111''), UsersInfo (utf16 ''U444''),
        UsersConversations (utf16 ''U111'') None, UsersConversations (utf16 ''U444'') None,
        UsersConversations (utf16 ''U111'') (Some (utf16 ''p2'')),
        ConsoleError (ApiError (utf16 ''missing_scope'')),
        Say (error_message_sm (ApiError (utf16 ''missing_scope'')))])"
  by (simp_all add: handler_def handler_sm_def userIds_fetch_failing Let_def catch_error_def
      catch_error_sm_def scenario_two_users_def two_users_sm_def numeral_2_eq_2
      fetch_alice fetch_dave promise_all2_def)

lemma handler_early_late:
  "handler 2 directory (Some (utf16 ''<@U555> <@U444>'')) =
     (Completed, [Ack, UsersInfo (utf16 ''U555''), UsersInfo (utf16 ''U444''),
        UsersConversations (utf16 ''U555'') None, UsersConversations (utf16 ''U444'') None,
        UsersConversations (utf16 ''U555'') (Some (utf16 ''p2'')),
        ConsoleError (ApiError (utf16 ''missing_scope'')),
        Say (error_message (ApiError (utf16 ''missing_scope'')))])"
  "handler_sm 2 directory (Some (utf16 ''<@U555> <@U444>'')) =
     (Completed, [Ack, UsersInfo (utf16 ''U555''), UsersInfo (utf16 ''U444''),
        UsersConversations (utf16 ''U555'') None, UsersConversations (utf16 ''U444'') None,
        UsersConversations (utf16 ''U555'') (Some (utf16 ''p2'')),
        ConsoleError (ApiError (utf16 ''missing_scope'')),
        Say (error_message_sm (ApiError (utf16 ''missing_scope'')))])"
  by (simp_all add: handler_def handler_sm_def userIds_early_late Let_def catch_error_def
      catch_error_sm_def scenario_two_users_def two_users_sm_def numeral_2_eq_2
      fetch_erin fetch_dave promise_all2_def)

lemma handler_early_late_pending:
  "handler 1 directory (Some (utf16 ''<@U555> <@U444>'')) =
     (Unfinished, [Ack, UsersInfo (utf16 ''U555''), UsersInfo (utf16 ''U444''),
        UsersConversations (utf16 ''U555'') None, UsersConversations (utf16 ''U444'') None])"
  "handler_sm 1 directory (Some (utf16 ''<@U555> <@U444>'')) =
     (Unfinished, [Ack, UsersInfo (utf16 ''U555''), UsersInfo (utf16 ''U444''),
        UsersConversations (utf16 ''U555'') None, UsersConversations (utf16 ''U444'') None])"
  by (simp_all add: handler_def handler_sm_def userIds_early_late Let_def
      scenario_two_users_def two_users_sm_def fetch_erin fetch_dave promise_all2_def)

lemma handler_two:
  "handler 2 directory (Some (utf16 ''<@U111> <@U222>'')) =
     (Completed, [Ack, UsersInfo (utf16 ''U111''), UsersInfo (utf16 ''U222''),
        UsersConversations (utf16 ''U111'') None, UsersConversations (utf16 ''U222'') None,
        UsersConversations (utf16 ''U111'') (Some (utf16 ''p2'')),
        Say (two_users_message alice bob [general, eng] [eng, random])])"
  "handler_sm 2 directory (Some (utf16 ''<@U111> <@U222>'')) =
     (Completed, [Ack, UsersInfo (utf16 ''U111''), UsersInfo (utf16 ''U222''),
        UsersConversations (utf16 ''U111'') None, UsersConversations (utf16 ''U222'') None,
        UsersConversations (utf16 ''U111'') (Some (utf16 ''p2'')),
        Say (two_users_message_sm alice bob [general, eng] [eng, random])])"
  by (simp_all add: handler_def handler_sm_def userIds_two Let_def
      scenario_two_users_def two_users_sm_def numeral_2_eq_2
      fetch_alice fetch_bob promise_all2_def)

lemma handler_one:
  "handler 2 directory (Some (utf16 ''<@U111>'')) =
     (Completed, [Ack, UsersInfo (utf16 ''U111''),
        UsersConversations (utf16 ''U111'') None, UsersConversations (utf16 ''U111'') (Some (utf16 ''p2'')),
        Say (one_user_message alice [general, eng])])"
  "handler_sm 2 directory (Some (utf16 ''<@U111>'')) =
     (Completed, [Ack, UsersInfo (utf16 ''U111''),
        UsersConversations (utf16 ''U111'') None, UsersConversations (utf16 ''U111'') (Some (utf16 ''p2'')),
        Say (one_user_message_sm alice [general, eng])])"
  by (simp_all add: handler_def handler_sm_def userIds_one Let_def
      scenario_one_user_def one_user_sm_def numeral_2_eq_2 fetch_alice)

lemma handler_empty_channels:
  "handler 1 directory (Some (utf16 ''<@U333>'')) =
     (Completed, [Ack, UsersInfo (utf16 ''U333''), UsersConversations (utf16 ''U333'') None,
        Say (one_user_message carol [])])"
  "handler_sm 1 directory (Some (utf16 ''<@U333>'')) =
     (Completed, [Ack, UsersInfo (utf16 ''U333''), UsersConversations (utf16 ''U333'') None,
        Say (one_user_message_sm carol [])])"
  using fetch_carol [of 0]
  by (simp_all add: handler_def handler_sm_def userIds_empty_channels Let_def
      scenario_one_user_def one_user_sm_def)


lemma remote_UsersInfo [simp]: "filter is_remote (map UsersInfo ids) = map UsersInfo ids"
  by (induction ids) auto

lemma remote_catch_error [simp]: "filter is_remote (catch_error e) = []"
  by (simp add: catch_error_def)

lemma userIds_Nil [simp]: "userIds [] = []" "userIds_sm [] = []"
  by (simp_all add: userIds_def users_def userIds_sm_def users_sm_def trim_def split_ws.simps)

subsection \<open>Rendering\<close>

lemma utf16_append: "utf16 (a @ b) = utf16 a @ utf16 b"
  by (simp add: utf16_def)

lemma link_channel_link: "link c = utf16 ''- '' @ channel_link c"
  by (simp add: link_def channel_link_def utf16_def)

lemma getChannelText_channel_link: "getChannelText c = utf16 ''- '' @ channel_link c"
  by (simp add: getChannelText_def channel_link_def)

lemma join_nonempty: "xs \<noteq> [] \<Longrightarrow> hd xs \<noteq> [] \<Longrightarrow> join sep xs \<noteq> []"
  by (induction sep xs rule: join.induct) auto

lemma join_links_nonempty: "ch \<noteq> [] \<Longrightarrow> join sep (map link ch) \<noteq> []"
  by (rule join_nonempty) (auto simp: link_def hd_map utf16_def)

lemma links_or_itemized: "links_or placeholder xs = itemized placeholder xs"
  by (simp add: links_or_def itemized_def link_channel_link [abs_def])

lemma sharedChannelList_itemized:
  "sharedChannelList chs = itemized (utf16 ''No shared channels found.'') chs"
  by (simp add: sharedChannelList_def itemized_def getChannelText_channel_link [abs_def])

lemma userUniqueList_itemized:
  "userUniqueList u chs =
     itemized (template (real_name u) @ utf16 '' has no unique channels.'') chs"
  by (simp add: userUniqueList_def itemized_def getChannelText_channel_link [abs_def])

subsection \<open>Parsing\<close>

lemma spec_tokens_from_dropWhile:
  "spec_tokens_from [] (dropWhile isSpace s) = spec_tokens_from [] s"
  by (induction s) auto

lemma spec_tokens_from_piece:
  "spec_tokens_from tok s =
     filter (\<lambda>t. t \<noteq> []) [tok @ takeWhile (\<lambda>c. \<not> isSpace c) s]
     @ spec_tokens_from [] (dropWhile isSpace (dropWhile (\<lambda>c. \<not> isSpace c) s))"
proof (induction s arbitrary: tok)
  case Nil
  show ?case by simp
next
  case (Cons c cs)
  show ?case
  proof (cases "isSpace c")
    case True
    then show ?thesis by (simp add: spec_tokens_from_dropWhile)
  next
    case False
    with Cons [of "tok @ [c]"] show ?thesis by simp
  qed
qed

lemma split_ws_last:
  "dropWhile (\<lambda>c. \<not> isSpace c) s = [] \<Longrightarrow> split_ws s = [takeWhile (\<lambda>c. \<not> isSpace c) s]"
  by (subst split_ws.simps) (simp only: Let_def simp_thms if_True if_False)

lemma split_ws_more:
  "dropWhile (\<lambda>c. \<not> isSpace c) s \<noteq> [] \<Longrightarrow>
   split_ws s = takeWhile (\<lambda>c. \<not> isSpace c) s
     # split_ws (dropWhile isSpace (dropWhile (\<lambda>c. \<not> isSpace c) s))"
  by (subst split_ws.simps) (simp only: Let_def simp_thms if_True if_False)

lemma split_ws_tokens: "filter (\<lambda>t. t \<noteq> []) (split_ws s) = spec_tokens s"
proof (induction s rule: split_ws.induct)
  case (1 s)
  let ?piece = "takeWhile (\<lambda>c. \<not> isSpace c) s"
  let ?rest = "dropWhile (\<lambda>c. \<not> isSpace c) s"
  have t: "spec_tokens s =
      filter (\<lambda>t. t \<noteq> []) [?piece] @ spec_tokens (dropWhile isSpace ?rest)"
    unfolding spec_tokens_def by (subst spec_tokens_from_piece) simp
  show ?case
  proof (cases "?rest = []")
    case True
    then have "split_ws s = [?piece]"
      by (rule split_ws_last)
    moreover have "spec_tokens (dropWhile isSpace ?rest) = []"
      unfolding True spec_tokens_def by simp
    ultimately show ?thesis using t by simp
  next
    case False
    then have "split_ws s = ?piece # split_ws (dropWhile isSpace ?rest)"
      by (rule split_ws_more)
    moreover from False have "filter (\<lambda>t. t \<noteq> []) (split_ws (dropWhile isSpace ?rest)) =
        spec_tokens (dropWhile isSpace ?rest)"
      by (rule 1 [OF refl refl])
    ultimately show ?thesis using t by simp
  qed
qed

lemma spec_tokens_from_spaces:
  "list_all isSpace ws \<Longrightarrow> spec_tokens_from tok ws = (if tok = [] then [] else [tok])"
  by (induction ws arbitrary: tok) auto

lemma spec_tokens_from_trailing:
  "list_all isSpace ws \<Longrightarrow> spec_tokens_from tok (s @ ws) = spec_tokens_from tok s"
  by (induction s arbitrary: tok) (auto simp: spec_tokens_from_spaces)

lemma rev_dropWhile_rev:
  "s = rev (dropWhile P (rev s)) @ rev (takeWhile P (rev s))"
  by (metis rev_append rev_rev_ident takeWhile_dropWhile_id)

lemma spec_tokens_trim: "spec_tokens (trim s) = spec_tokens s"
proof -
  let ?d = "dropWhile isSpace s"
  have "list_all isSpace (rev (takeWhile isSpace (rev ?d)))"
    by (simp add: list_all_iff) (meson set_takeWhileD)
  then have "spec_tokens_from [] (rev (dropWhile isSpace (rev ?d)) @ rev (takeWhile isSpace (rev ?d)))
      = spec_tokens_from [] (rev (dropWhile isSpace (rev ?d)))"
    by (rule spec_tokens_from_trailing)
  then have "spec_tokens_from [] ?d = spec_tokens_from [] (rev (dropWhile isSpace (rev ?d)))"
    using rev_dropWhile_rev [of ?d isSpace] by simp
  then show ?thesis
    by (simp add: spec_tokens_def trim_def spec_tokens_from_dropWhile)
qed

lemma users_sm_tokens: "users_sm s = spec_tokens s"
  by (simp add: users_sm_def split_ws_tokens spec_tokens_trim)

lemma extractUserId_empty: "extractUserId [] = None"
  by simp

lemma map_filter_nonempty:
  "List.map_filter extractUserId (filter (\<lambda>t. t \<noteq> []) ts) = List.map_filter extractUserId ts"
  by (induction ts) (auto simp: List.map_filter_def)

lemma userIds_map_filter: "userIds s = List.map_filter extractUserId (spec_tokens s)"
proof -
  have "userIds s = List.map_filter extractUserId (split_ws (trim s))"
    by (simp add: userIds_def users_def List.map_filter_def filter_map comp_def)
  also have "\<dots> = List.map_filter extractUserId (filter (\<lambda>t. t \<noteq> []) (split_ws (trim s)))"
    by (simp add: map_filter_nonempty)
  finally show ?thesis by (simp add: split_ws_tokens spec_tokens_trim)
qed

lemma not_idchar_close: "\<not> isIdChar 0x3E"
  by (simp add: isIdChar_def)

lemma mention_Cons: "mention i = 0x3C # 0x40 # i @ [0x3E]"
  by (simp add: mention_def utf16_def)

lemma match_here_Some:
  "match_here s = Some i \<longleftrightarrow> valid_id i \<and> (\<exists>post. s = mention i @ post)"
proof
  assume m: "match_here s = Some i"
  then obtain r where s: "s = 0x3C # 0x40 # r"
    by (auto simp: match_here_def split: list.splits if_splits)
  from m s have i: "i = takeWhile isIdChar r" and ne: "i \<noteq> []"
    and a: "dropWhile isIdChar r \<noteq> []" and h: "hd (dropWhile isIdChar r) = 0x3E"
    by (auto simp: match_here_def Let_def split: if_splits)
  from a h obtain post where d: "dropWhile isIdChar r = 0x3E # post"
    by (cases "dropWhile isIdChar r") auto
  have "r = takeWhile isIdChar r @ dropWhile isIdChar r" by simp
  with i d have "r = i @ 0x3E # post" by simp
  with s have "s = mention i @ post" by (simp add: mention_Cons)
  moreover from i ne have "valid_id i"
    by (auto simp: valid_id_def list_all_iff dest: set_takeWhileD)
  ultimately show "valid_id i \<and> (\<exists>post. s = mention i @ post)" by blast
next
  assume "valid_id i \<and> (\<exists>post. s = mention i @ post)"
  then obtain post where v: "valid_id i" and s: "s = 0x3C # 0x40 # i @ 0x3E # post"
    by (auto simp: mention_Cons)
  from v have all: "\<forall>c\<in>set i. isIdChar c" and ne: "i \<noteq> []"
    by (simp_all add: valid_id_def list_all_iff)
  from all have t: "takeWhile isIdChar (i @ 0x3E # post) = i"
    by (simp add: takeWhile_tail not_idchar_close)
  from all have d: "dropWhile isIdChar (i @ 0x3E # post) = 0x3E # post"
    by (simp add: dropWhile_append3 not_idchar_close)
  from s t d ne show "match_here s = Some i"
    by (simp add: match_here_def Let_def not_idchar_close)
qed

lemma occurs_at_0: "occurs_at t 0 i \<longleftrightarrow> match_here t = Some i"
  by (simp add: occurs_at_def match_here_Some)

lemma occurs_at_Suc: "occurs_at (c # cs) (Suc k) i \<longleftrightarrow> occurs_at cs k i"
  by (simp add: occurs_at_def)

lemma occurs_at_Nil: "\<not> occurs_at [] k i"
  by (simp add: occurs_at_def mention_Cons)

lemma extractUserId_None: "extractUserId t = None \<longleftrightarrow> \<not> has_mention t"
proof (induction t)
  case Nil
  show ?case by (simp add: has_mention_def occurs_at_Nil)
next
  case (Cons c cs)
  have h: "has_mention (c # cs) \<longleftrightarrow> (\<exists>i. match_here (c # cs) = Some i) \<or> has_mention cs"
  proof
    assume "has_mention (c # cs)"
    then obtain k i where o: "occurs_at (c # cs) k i" by (auto simp: has_mention_def)
    show "(\<exists>i. match_here (c # cs) = Some i) \<or> has_mention cs"
    proof (cases k)
      case 0
      with o show ?thesis by (auto simp: occurs_at_0)
    next
      case (Suc j)
      with o show ?thesis by (auto simp: occurs_at_Suc has_mention_def)
    qed
  next
    assume "(\<exists>i. match_here (c # cs) = Some i) \<or> has_mention cs"
    then show "has_mention (c # cs)"
    proof
      assume "\<exists>i. match_here (c # cs) = Some i"
      then show ?thesis unfolding has_mention_def using occurs_at_0 by blast
    next
      assume "has_mention cs"
      then show ?thesis unfolding has_mention_def using occurs_at_Suc by blast
    qed
  qed
  show ?case
  proof (cases "match_here (c # cs)")
    case None
    with Cons h show ?thesis by simp
  next
    case (Some i)
    with h show ?thesis by simp
  qed
qed

lemma extractUserId_Some: "extractUserId t = Some i \<longleftrightarrow> first_mention t i"
proof (induction t)
  case Nil
  show ?case by (simp add: first_mention_def occurs_at_Nil)
next
  case (Cons c cs)
  show ?case
  proof (cases "match_here (c # cs)")
    case (Some j)
    have "first_mention (c # cs) i \<longleftrightarrow> i = j"
    proof
      assume "first_mention (c # cs) i"
      then obtain k where o: "occurs_at (c # cs) k i"
        and f: "\<forall>n i'. n < k \<longrightarrow> \<not> occurs_at (c # cs) n i'"
        by (auto simp: first_mention_def)
      from Some have "occurs_at (c # cs) 0 j" by (simp add: occurs_at_0)
      with f have "k = 0" by (cases k) auto
      with o Some show "i = j" by (simp add: occurs_at_0)
    next
      assume "i = j"
      with Some have "occurs_at (c # cs) 0 i" by (simp add: occurs_at_0)
      then show "first_mention (c # cs) i" unfolding first_mention_def by (intro exI [of _ 0]) simp
    qed
    with Some show ?thesis by auto
  next
    case None
    then have no: "\<not> occurs_at (c # cs) 0 i'" for i' by (simp add: occurs_at_0)
    have "first_mention (c # cs) i \<longleftrightarrow> first_mention cs i"
    proof
      assume "first_mention (c # cs) i"
      then obtain k where o: "occurs_at (c # cs) k i"
        and f: "\<forall>n i'. n < k \<longrightarrow> \<not> occurs_at (c # cs) n i'"
        by (auto simp: first_mention_def)
      from o no obtain m where k: "k = Suc m" by (cases k) auto
      with o have "occurs_at cs m i" by (simp add: occurs_at_Suc)
      moreover have "\<not> occurs_at cs n i'" if "n < m" for n i'
        using f [rule_format, of "Suc n" i'] that k by (simp add: occurs_at_Suc)
      ultimately show "first_mention cs i" unfolding first_mention_def by blast
    next
      assume "first_mention cs i"
      then obtain m where o: "occurs_at cs m i"
        and f: "\<forall>n i'. n < m \<longrightarrow> \<not> occurs_at cs n i'"
        by (auto simp: first_mention_def)
      from o have "occurs_at (c # cs) (Suc m) i" by (simp add: occurs_at_Suc)
      moreover have "\<not> occurs_at (c # cs) n i'" if "n < Suc m" for n i'
      proof (cases n)
        case 0
        with no show ?thesis by simp
      next
        case (Suc l)
        with that f show ?thesis by (simp add: occurs_at_Suc)
      qed
      ultimately show "first_mention (c # cs) i" unfolding first_mention_def by blast
    qed
    with None Cons show ?thesis by simp
  qed
qed

lemma extractUserId_nonempty: "extractUserId t \<noteq> Some []"
proof
  assume "extractUserId t = Some []"
  then have "first_mention t []" by (simp add: extractUserId_Some)
  then show False by (auto simp: first_mention_def occurs_at_def valid_id_def)
qed

lemma userIds_sm_map_filter: "userIds_sm s = List.map_filter extractUserId (spec_tokens s)"
  by (simp add: userIds_sm_def users_sm_tokens List.map_filter_def filter_map comp_def
      extractUserId_nonempty)

subsection \<open>The channel fetcher: pages and termination\<close>

text \<open>
  Claim C3. Let the platform serve user \<open>u\<close>, from the first request (no cursor) on, the
  \<open>N\<close> pages \<open>pages\<close>, every page but the last carrying a non-empty next cursor. Then,
  given fuel for \<open>N\<close> requests, \<open>fetchUserChannels\<close> returns the channels of all pages
  concatenated in page order and issues exactly the \<open>N\<close> requests for them: in
  \<^verbatim>\<open>part_000\<close> always, in \<^verbatim>\<open>app.js\<close> when every page has its \<^verbatim>\<open>channels\<close> field. A
  user without channels is the case of one page with no channel: the result is the
  empty list, after one request.
\<close>

theorem fetchUserChannels_pages:
  assumes "serves up u None pages" and "length pages \<le> fuel"
  shows "fetchUserChannels_sm fuel up u =
           (Returned (concat (map page_channels pages)), requests u None pages)
         \<and> (list_all (\<lambda>p. channels p \<noteq> None) pages \<longrightarrow>
              fetchUserChannels fuel up u =
                (Returned (map Some (concat (map page_channels pages))), requests u None pages))
         \<and> length (requests u None pages) = length pages"
  using assms
  by (simp add: fetchUserChannels_def fetchUserChannels_sm_def fetch_loop_serves
      fetch_loop_sm_serves page_elements_defined)

theorem fetchUserChannels_pages_witness:
  "fetchUserChannels_sm 2 directory (utf16 ''U111'') =
     (Returned [general, eng],
      [UsersConversations (utf16 ''U111'') None, UsersConversations (utf16 ''U111'') (Some (utf16 ''p2''))])
   \<and> fetchUserChannels 2 directory (utf16 ''U111'') =
     (Returned [Some general, Some eng],
      [UsersConversations (utf16 ''U111'') None, UsersConversations (utf16 ''U111'') (Some (utf16 ''p2''))])
   \<and> fetchUserChannels_sm 1 directory (utf16 ''U333'') =
     (Returned [], [UsersConversations (utf16 ''U333'') None])
   \<and> fetchUserChannels 1 directory (utf16 ''U333'') =
     (Returned [], [UsersConversations (utf16 ''U333'') None])"
proof -
  have c: "page_cursor alice_page1 = Some (utf16 ''p2'')" "page_cursor alice_page2 = None"
    "page_cursor empty_page = None"
    by (simp_all add: page_cursor_def alice_page1_def alice_page2_def empty_page_def utf16_def)
  have a: "serves directory (utf16 ''U111'') None [alice_page1, alice_page2]"
    by (simp add: c) (simp add: directory_def utf16_def)
  have e: "serves directory (utf16 ''U333'') None [empty_page]"
    by (simp add: c) (simp add: directory_def utf16_def)
  have d: "list_all (\<lambda>p. channels p \<noteq> None) [alice_page1, alice_page2]"
    "list_all (\<lambda>p. channels p \<noteq> None) [empty_page]"
    by (simp_all add: alice_page1_def alice_page2_def empty_page_def)
  have p: "page_channels alice_page1 = [general]" "page_channels alice_page2 = [eng]"
    "page_channels empty_page = []"
    by (simp_all add: page_channels_def alice_page1_def alice_page2_def empty_page_def)
  from fetchUserChannels_pages [OF a, of 2] d(1)
  have 1: "fetchUserChannels_sm 2 directory (utf16 ''U111'') =
     (Returned [general, eng],
      [UsersConversations (utf16 ''U111'') None, UsersConversations (utf16 ''U111'') (Some (utf16 ''p2''))])"
    and 2: "fetchUserChannels 2 directory (utf16 ''U111'') =
     (Returned [Some general, Some eng],
      [UsersConversations (utf16 ''U111'') None, UsersConversations (utf16 ''U111'') (Some (utf16 ''p2''))])"
    by (simp_all add: p c)
  from fetchUserChannels_pages [OF e, of 1] d(2)
  have 3: "fetchUserChannels_sm 1 directory (utf16 ''U333'') =
     (Returned [], [UsersConversations (utf16 ''U333'') None])"
    and 4: "fetchUserChannels 1 directory (utf16 ''U333'') =
     (Returned [], [UsersConversations (utf16 ''U333'') None])"
    by (simp_all add: p c)
  from 1 2 3 4 show ?thesis by (intro conjI)
qed

text \<open>
  Claim C4, as the code has it. Neither file guards the loop against a repeating
  cursor. After \<open>fuel\<close> requests the loop is still running exactly when each of these
  requests was answered with a page carrying a non-empty next cursor; it ends only when
  a request fails or a page comes without such a cursor.
\<close>

theorem fetchUserChannels_runs_while_cursor:
  "(fst (fetchUserChannels fuel up u) = Awaiting) = more_pages up u None fuel
   \<and> (fst (fetchUserChannels_sm fuel up u) = Awaiting) = more_pages up u None fuel"
  by (simp add: fetchUserChannels_def fetchUserChannels_sm_def fetch_loop_more_pages
      fetch_loop_sm_more_pages)

text \<open>
  Against the platform that repeats one non-empty cursor, the loop of either file has not
  ended after any number of requests.
\<close>

theorem repeating_cursor_counterexample:
  "\<not> (\<exists>fuel. fst (fetchUserChannels fuel repeating (utf16 ''U111'')) \<noteq> Awaiting)
   \<and> \<not> (\<exists>fuel. fst (fetchUserChannels_sm fuel repeating (utf16 ''U111'')) \<noteq> Awaiting)"
  by (simp add: fetchUserChannels_def fetchUserChannels_sm_def fetch_loop_more_pages
      fetch_loop_sm_more_pages repeating_more_pages)

subsection \<open>The handlers\<close>

text \<open>
  Claim C9. In both files and for every invocation, whatever the text, the platform
  and the fuel, the acknowledgment is the first effect and occurs once: every remote
  request (user lookup or channel page request) comes after it. The content response is
  another effect, later in the trace: a completed invocation has sent exactly one message
  after the acknowledgment.
\<close>

theorem ack_before_remote:
  "(\<exists>rest. snd (handler fuel up command_text) = Ack # rest \<and> Ack \<notin> set rest
       \<and> (fst (handler fuel up command_text) = Completed \<longrightarrow> length (says rest) = 1))
   \<and> (\<exists>rest. snd (handler_sm fuel up command_text) = Ack # rest \<and> Ack \<notin> set rest
       \<and> (fst (handler_sm fuel up command_text) = Completed \<longrightarrow> length (says rest) = 1))"
proof (intro conjI)
  from ack_handler [of fuel up command_text] obtain rest
    where r: "snd (handler fuel up command_text) = Ack # rest" "Ack \<notin> set rest" by blast
  with says_handler [of fuel up command_text]
  have "fst (handler fuel up command_text) = Completed \<longrightarrow> length (says rest) = 1" by simp
  with r show "\<exists>rest. snd (handler fuel up command_text) = Ack # rest \<and> Ack \<notin> set rest
       \<and> (fst (handler fuel up command_text) = Completed \<longrightarrow> length (says rest) = 1)" by blast
next
  from ack_handler_sm [of fuel up command_text] obtain rest
    where r: "snd (handler_sm fuel up command_text) = Ack # rest" "Ack \<notin> set rest" by blast
  with says_handler_sm [of fuel up command_text]
  have "fst (handler_sm fuel up command_text) = Completed \<longrightarrow> length (says rest) = 1" by simp
  with r show "\<exists>rest. snd (handler_sm fuel up command_text) = Ack # rest \<and> Ack \<notin> set rest
       \<and> (fst (handler_sm fuel up command_text) = Completed \<longrightarrow> length (says rest) = 1)" by blast
qed

theorem ack_before_remote_witness:
  "fst (handler 2 directory (Some (utf16 ''<@U111> <@U222>''))) = Completed
   \<and> (\<exists>rest. snd (handler 2 directory (Some (utf16 ''<@U111> <@U222>''))) = Ack # rest
         \<and> Ack \<notin> set rest \<and> length (says rest) = 1)
   \<and> fst (handler_sm 2 directory (Some (utf16 ''<@U111> <@U222>''))) = Completed
   \<and> (\<exists>rest. snd (handler_sm 2 directory (Some (utf16 ''<@U111> <@U222>''))) = Ack # rest
         \<and> Ack \<notin> set rest \<and> length (says rest) = 1)"
proof -
  have c: "fst (handler 2 directory (Some (utf16 ''<@U111> <@U222>''))) = Completed"
    "fst (handler_sm 2 directory (Some (utf16 ''<@U111> <@U222>''))) = Completed"
    by (simp_all add: handler_two)
  from ack_before_remote [of 2 directory "Some (utf16 ''<@U111> <@U222>'')"] c
  show ?thesis by blast
qed

text \<open>
  Claim C6, as the code has it. In both files and for every invocation: when the handler
  has completed, on whichever path, it has sent exactly one message; while it has not
  completed it has sent none, so it never sends more than one. The handler has not
  completed within \<open>fuel\<close> page requests per user exactly when the text has one or two
  valid user ids (\<^verbatim>\<open>app.js\<close>: and is defined), all lookups have succeeded and a pagination
  loop is left awaiting a page (\<open>still_fetching\<close>); on every other path, and from the
  moment pagination ends, it has completed. Once it has completed, more fuel changes
  nothing: the trace, and with it the one message, are final.
\<close>

theorem one_response_when_completed:
  "(fst (handler fuel up command_text) = Completed \<longrightarrow>
      length (says (snd (handler fuel up command_text))) = 1)
   \<and> (fst (handler fuel up command_text) = Unfinished \<longrightarrow>
      says (snd (handler fuel up command_text)) = [])
   \<and> (fst (handler fuel up command_text) = Unfinished \<longleftrightarrow>
      (\<exists>tx us. command_text = Some tx \<and>
         promise_all (map (users_info up) (userIds tx)) = Inr us \<and> still_fetching fuel up us))
   \<and> (fst (handler fuel up command_text) = Completed \<longrightarrow>
      handler (fuel + k) up command_text = handler fuel up command_text)
   \<and> (fst (handler_sm fuel up command_text) = Completed \<longrightarrow>
      length (says (snd (handler_sm fuel up command_text))) = 1)
   \<and> (fst (handler_sm fuel up command_text) = Unfinished \<longrightarrow>
      says (snd (handler_sm fuel up command_text)) = [])
   \<and> (fst (handler_sm fuel up command_text) = Unfinished \<longleftrightarrow>
      (\<exists>us. promise_all (map (users_info up) (userIds_sm (or_empty command_text))) = Inr us \<and>
         still_fetching fuel up us))
   \<and> (fst (handler_sm fuel up command_text) = Completed \<longrightarrow>
      handler_sm (fuel + k) up command_text = handler_sm fuel up command_text)"
proof (intro conjI)
  show "fst (handler fuel up command_text) = Completed \<longrightarrow>
      length (says (snd (handler fuel up command_text))) = 1"
    and "fst (handler fuel up command_text) = Unfinished \<longrightarrow>
      says (snd (handler fuel up command_text)) = []"
    using says_handler [of fuel up command_text] by simp_all
  show "fst (handler_sm fuel up command_text) = Completed \<longrightarrow>
      length (says (snd (handler_sm fuel up command_text))) = 1"
    and "fst (handler_sm fuel up command_text) = Unfinished \<longrightarrow>
      says (snd (handler_sm fuel up command_text)) = []"
    using says_handler_sm [of fuel up command_text] by simp_all
  show "fst (handler fuel up command_text) = Unfinished \<longleftrightarrow>
      (\<exists>tx us. command_text = Some tx \<and>
         promise_all (map (users_info up) (userIds tx)) = Inr us \<and> still_fetching fuel up us)"
    by (rule handler_unfinished)
  show "fst (handler_sm fuel up command_text) = Unfinished \<longleftrightarrow>
      (\<exists>us. promise_all (map (users_info up) (userIds_sm (or_empty command_text))) = Inr us \<and>
         still_fetching fuel up us)"
    by (rule handler_sm_unfinished)
  show "fst (handler fuel up command_text) = Completed \<longrightarrow>
      handler (fuel + k) up command_text = handler fuel up command_text"
    by (simp add: handler_stable)
  show "fst (handler_sm fuel up command_text) = Completed \<longrightarrow>
      handler_sm (fuel + k) up command_text = handler_sm fuel up command_text"
    by (simp add: handler_sm_stable)
qed

theorem one_response_when_completed_witness:
  "fst (handler 2 directory (Some (utf16 ''<@U111> <@U222>''))) = Completed
   \<and> length (says (snd (handler 2 directory (Some (utf16 ''<@U111> <@U222>''))))) = 1
   \<and> handler (2 + 5) directory (Some (utf16 ''<@U111> <@U222>'')) =
       handler 2 directory (Some (utf16 ''<@U111> <@U222>''))
   \<and> fst (handler_sm 2 directory (Some (utf16 ''<@U111> <@U222>''))) = Completed
   \<and> length (says (snd (handler_sm 2 directory (Some (utf16 ''<@U111> <@U222>''))))) = 1
   \<and> handler_sm (2 + 5) directory (Some (utf16 ''<@U111> <@U222>'')) =
       handler_sm 2 directory (Some (utf16 ''<@U111> <@U222>''))
   \<and> still_fetching 1 directory [alice, bob]
   \<and> fst (handler 1 directory (Some (utf16 ''<@U111> <@U222>''))) = Unfinished
   \<and> says (snd (handler 1 directory (Some (utf16 ''<@U111> <@U222>'')))) = []
   \<and> fst (handler_sm 1 directory (Some (utf16 ''<@U111> <@U222>''))) = Unfinished
   \<and> says (snd (handler_sm 1 directory (Some (utf16 ''<@U111> <@U222>'')))) = []"
proof -
  have c: "fst (handler 2 directory (Some (utf16 ''<@U111> <@U222>''))) = Completed"
    "fst (handler_sm 2 directory (Some (utf16 ''<@U111> <@U222>''))) = Completed"
    by (simp_all add: handler_two)
  have s: "still_fetching 1 directory [alice, bob]"
    by (simp add: still_fetching_def directory_def)
  have p: "promise_all (map (users_info directory) (userIds (utf16 ''<@U111> <@U222>''))) = Inr [alice, bob]"
    "promise_all (map (users_info directory) (userIds_sm (or_empty (Some (utf16 ''<@U111> <@U222>''))))) = Inr [alice, bob]"
    by (simp_all add: userIds_two)
  from p s have u: "\<exists>tx us. Some (utf16 ''<@U111> <@U222>'') = Some tx \<and>
      promise_all (map (users_info directory) (userIds tx)) = Inr us \<and> still_fetching 1 directory us"
    "\<exists>us. promise_all (map (users_info directory) (userIds_sm (or_empty (Some (utf16 ''<@U111> <@U222>''))))) = Inr us \<and>
      still_fetching 1 directory us"
    by blast+
  from one_response_when_completed [of 2 directory "Some (utf16 ''<@U111> <@U222>'')" 5] c
    one_response_when_completed [of 1 directory "Some (utf16 ''<@U111> <@U222>'')" 0] u s
  show ?thesis by blast
qed

text \<open>
  One user is mentioned and the platform repeats one non-empty cursor: the lookup
  succeeds, the pagination never ends, and whatever the number of page requests the
  handler of either file has not completed and has sent nothing.
\<close>

theorem no_response_counterexample:
  "\<not> (\<exists>fuel. fst (handler fuel repeating (Some (utf16 ''<@U111>''))) = Completed)
   \<and> \<not> (\<exists>fuel. says (snd (handler fuel repeating (Some (utf16 ''<@U111>'')))) \<noteq> [])
   \<and> \<not> (\<exists>fuel. fst (handler_sm fuel repeating (Some (utf16 ''<@U111>''))) = Completed)
   \<and> \<not> (\<exists>fuel. says (snd (handler_sm fuel repeating (Some (utf16 ''<@U111>'')))) \<noteq> [])"
proof -
  let ?u = "\<lparr>id_u = utf16 ''U111'', real_name = None, name_u = utf16 ''U111''\<rparr>"
  have p: "promise_all (map (users_info repeating) (userIds (utf16 ''<@U111>''))) = Inr [?u]"
    "promise_all (map (users_info repeating) (userIds_sm (or_empty (Some (utf16 ''<@U111>''))))) = Inr [?u]"
    by (simp_all add: userIds_one repeating_def)
  have s: "still_fetching fuel repeating [?u]" for fuel
    by (simp add: still_fetching_def repeating_more_pages)
  have u: "fst (handler fuel repeating (Some (utf16 ''<@U111>''))) = Unfinished" for fuel
    unfolding handler_unfinished using p(1) s by blast
  have v: "fst (handler_sm fuel repeating (Some (utf16 ''<@U111>''))) = Unfinished" for fuel
    unfolding handler_sm_unfinished using p(2) s by blast
  from u says_handler [of _ repeating "Some (utf16 ''<@U111>'')"]
  have 1: "says (snd (handler fuel repeating (Some (utf16 ''<@U111>'')))) = []" for fuel by simp
  from v says_handler_sm [of _ repeating "Some (utf16 ''<@U111>'')"]
  have 2: "says (snd (handler_sm fuel repeating (Some (utf16 ''<@U111>'')))) = []" for fuel by simp
  show ?thesis by (simp add: u v 1 2)
qed



subsection \<open>The usage error\<close>

text \<open>
  Claim C2, as the code has it. When no valid user id is parsed, both files send their
  usage message and make no remote call. When more than two are parsed,
  \<^verbatim>\<open>part_000\<close> does the same, while \<^verbatim>\<open>app.js\<close> first looks up every mentioned user, one
  \<^verbatim>\<open>users.info\<close> request per id: these are its only remote calls (no channel page is
  fetched); it then sends its usage message about the maximum of two users when all
  lookups succeed, and the generic error message of the first failed lookup otherwise.
\<close>

theorem usage_error_paths:
  "(length (userIds tx) = 0 \<longrightarrow> handler fuel up (Some tx) = (Completed, [Ack, Say usage_hint]))
   \<and> (length (userIds_sm (or_empty command_text)) = 0 \<or> length (userIds_sm (or_empty command_text)) > 2 \<longrightarrow>
        handler_sm fuel up command_text = (Completed, [Ack, Say usage_hint_sm]))
   \<and> (length (userIds tx) > 2 \<longrightarrow>
        handler fuel up (Some tx) =
          (Completed, Ack # map UsersInfo (userIds tx) @
             (case promise_all (map (users_info up) (userIds tx)) of
                Inl e \<Rightarrow> catch_error e
              | Inr userInfo \<Rightarrow> [Say max_two_users]))
        \<and> filter is_remote (snd (handler fuel up (Some tx))) = map UsersInfo (userIds tx))"
proof (intro conjI impI)
  assume "length (userIds tx) = 0"
  then show "handler fuel up (Some tx) = (Completed, [Ack, Say usage_hint])"
    by (simp add: handler_def)
next
  assume "length (userIds_sm (or_empty command_text)) = 0 \<or> length (userIds_sm (or_empty command_text)) > 2"
  then show "handler_sm fuel up command_text = (Completed, [Ack, Say usage_hint_sm])"
    by (auto simp: handler_sm_def Let_def)
next
  assume l: "length (userIds tx) > 2"
  then show e: "handler fuel up (Some tx) =
          (Completed, Ack # map UsersInfo (userIds tx) @
             (case promise_all (map (users_info up) (userIds tx)) of
                Inl e \<Rightarrow> catch_error e
              | Inr userInfo \<Rightarrow> [Say max_two_users]))"
    by (auto simp: handler_def Let_def split: sum.splits)
  show "filter is_remote (snd (handler fuel up (Some tx))) = map UsersInfo (userIds tx)"
    unfolding e by (simp split: sum.splits)
qed

theorem usage_error_paths_witness:
  "handler 0 directory (Some []) = (Completed, [Ack, Say usage_hint])
   \<and> handler_sm 0 directory None = (Completed, [Ack, Say usage_hint_sm])
   \<and> handler_sm 0 directory (Some (utf16 ''<@U111> <@U222> <@U333>'')) = (Completed, [Ack, Say usage_hint_sm])
   \<and> filter is_remote (snd (handler 0 directory (Some (utf16 ''<@U111> <@U222> <@U333>'')))) =
        [UsersInfo (utf16 ''U111''), UsersInfo (utf16 ''U222''), UsersInfo (utf16 ''U333'')]"
proof -
  from usage_error_paths [of "[]" 0 directory None]
  have 1: "handler 0 directory (Some []) = (Completed, [Ack, Say usage_hint])"
    and 2: "handler_sm 0 directory None = (Completed, [Ack, Say usage_hint_sm])"
    by simp_all
  from usage_error_paths [of "utf16 ''<@U111> <@U222> <@U333>''" 0 directory
      "Some (utf16 ''<@U111> <@U222> <@U333>'')"]
  have 3: "handler_sm 0 directory (Some (utf16 ''<@U111> <@U222> <@U333>'')) = (Completed, [Ack, Say usage_hint_sm])"
    and 4: "filter is_remote (snd (handler 0 directory (Some (utf16 ''<@U111> <@U222> <@U333>'')))) =
        [UsersInfo (utf16 ''U111''), UsersInfo (utf16 ''U222''), UsersInfo (utf16 ''U333'')]"
    by (simp_all add: userIds_three)
  from 1 2 3 4 show ?thesis by (intro conjI)
qed

text \<open>
  Three users are mentioned and \<^verbatim>\<open>app.js\<close> contacts the directory service three times
  before it sends its usage message.
\<close>

theorem three_users_counterexample:
  "length (userIds (utf16 ''<@U111> <@U222> <@U333>'')) > 2
   \<and> handler 0 directory (Some (utf16 ''<@U111> <@U222> <@U333>'')) =
     (Completed, [Ack, UsersInfo (utf16 ''U111''), UsersInfo (utf16 ''U222''),
                  UsersInfo (utf16 ''U333''), Say max_two_users])
   \<and> is_remote (UsersInfo (utf16 ''U111''))"
  by (simp add: handler_three userIds_three)

subsection \<open>The lists of a report\<close>

text \<open>
  Claim C7, as the code has it. In every report of \<^verbatim>\<open>part_000\<close> and in the two-user
  report of \<^verbatim>\<open>app.js\<close>, each itemized list has one line per channel, a link made of the
  channel's id and name, and a list without entries is the placeholder naming the
  category or the user: for one user \<^verbatim>\<open>_No channels found._\<close>; for the shared channels
  \<^verbatim>\<open>No shared channels found.\<close>; for a user's unique channels the user's name and
  \<^verbatim>\<open>has no unique channels.\<close> (in \<^verbatim>\<open>part_000\<close> within underscores). In the one-user
  report of \<^verbatim>\<open>app.js\<close> each channel of a non-empty list is the line \<^verbatim>\<open>- #name\<close>, by
  name alone.
\<close>

theorem report_lists:
  "blocks (one_user_message_sm u ch) =
     Some [Section (utf16 ''*Channels for '' @ display_name u @ utf16 '':*\<newline>\<newline>*Total:* ''
                    @ decimal (length ch) @ utf16 ''\<newline>\<newline>''
                    @ itemized (utf16 ''_No channels found._'') ch)]
   \<and> (\<exists>header totals. blocks (two_users_message_sm u1 u2 c1 c2) =
         Some [header, Divider, totals, Divider,
               Section (utf16 ''*Shared Channels*\<newline>''
                        @ itemized (utf16 ''_No shared channels found._'') (shared c1 c2)),
               Section (utf16 ''*Unique to '' @ display_name u1 @ utf16 ''*\<newline>''
                        @ itemized (utf16 ''_'' @ display_name u1 @ utf16 '' has no unique channels._'')
                            (u1Only c1 c2)),
               Section (utf16 ''*Unique to '' @ display_name u2 @ utf16 ''*\<newline>''
                        @ itemized (utf16 ''_'' @ display_name u2 @ utf16 '' has no unique channels._'')
                            (u2Only c1 c2))])
   \<and> (\<exists>header totals. blocks (two_users_message u1 u2 c1 c2) =
         Some [header, Divider, totals, Divider,
               Section (utf16 ''*Shared Channels*\<newline>''
                        @ itemized (utf16 ''No shared channels found.'') (sharedChannels c1 c2)),
               Section (utf16 ''*Channels Unique to '' @ template (real_name u1) @ utf16 ''*\<newline>''
                        @ itemized (template (real_name u1) @ utf16 '' has no unique channels.'')
                            (user1UniqueChannels c1 c2)),
               Section (utf16 ''*Channels Unique to '' @ template (real_name u2) @ utf16 ''*\<newline>''
                        @ itemized (template (real_name u2) @ utf16 '' has no unique channels.'')
                            (user2UniqueChannels c1 c2))])
   \<and> (ch \<noteq> [] \<longrightarrow>
        blocks (one_user_message u ch) =
          Some [Section (utf16 ''*Here is the list of channels for '' @ template (real_name u)
                         @ utf16 '':*\<newline>\<newline>Total Channels: '' @ decimal (length ch)
                         @ utf16 ''\<newline>\<newline>''
                         @ join (utf16 ''\<newline>'') (map (\<lambda>c. utf16 ''- #'' @ name_c c) ch))])"
proof (intro conjI)
  show "blocks (one_user_message_sm u ch) =
     Some [Section (utf16 ''*Channels for '' @ display_name u @ utf16 '':*\<newline>\<newline>*Total:* ''
                    @ decimal (length ch) @ utf16 ''\<newline>\<newline>''
                    @ itemized (utf16 ''_No channels found._'') ch)]"
  proof (cases "ch = []")
    case True
    then show ?thesis by (simp add: one_user_message_sm_def itemized_def)
  next
    case False
    with join_links_nonempty [of ch "utf16 ''\<newline>''"] show ?thesis
      by (simp add: one_user_message_sm_def itemized_def Let_def link_channel_link [abs_def])
  qed
next
  show "\<exists>header totals. blocks (two_users_message_sm u1 u2 c1 c2) =
         Some [header, Divider, totals, Divider,
               Section (utf16 ''*Shared Channels*\<newline>''
                        @ itemized (utf16 ''_No shared channels found._'') (shared c1 c2)),
               Section (utf16 ''*Unique to '' @ display_name u1 @ utf16 ''*\<newline>''
                        @ itemized (utf16 ''_'' @ display_name u1 @ utf16 '' has no unique channels._'')
                            (u1Only c1 c2)),
               Section (utf16 ''*Unique to '' @ display_name u2 @ utf16 ''*\<newline>''
                        @ itemized (utf16 ''_'' @ display_name u2 @ utf16 '' has no unique channels._'')
                            (u2Only c1 c2))]"
    by (simp add: two_users_message_sm_def Let_def links_or_itemized)
next
  show "\<exists>header totals. blocks (two_users_message u1 u2 c1 c2) =
         Some [header, Divider, totals, Divider,
               Section (utf16 ''*Shared Channels*\<newline>''
                        @ itemized (utf16 ''No shared channels found.'') (sharedChannels c1 c2)),
               Section (utf16 ''*Channels Unique to '' @ template (real_name u1) @ utf16 ''*\<newline>''
                        @ itemized (template (real_name u1) @ utf16 '' has no unique channels.'')
                            (user1UniqueChannels c1 c2)),
               Section (utf16 ''*Channels Unique to '' @ template (real_name u2) @ utf16 ''*\<newline>''
                        @ itemized (template (real_name u2) @ utf16 '' has no unique channels.'')
                            (user2UniqueChannels c1 c2))]"
    by (simp add: two_users_message_def messageBlocks_def Let_def sharedChannelList_itemized
        userUniqueList_itemized)
next
  show "ch \<noteq> [] \<longrightarrow>
        blocks (one_user_message u ch) =
          Some [Section (utf16 ''*Here is the list of channels for '' @ template (real_name u)
                         @ utf16 '':*\<newline>\<newline>Total Channels: '' @ decimal (length ch)
                         @ utf16 ''\<newline>\<newline>''
                         @ join (utf16 ''\<newline>'') (map (\<lambda>c. utf16 ''- #'' @ name_c c) ch))]"
    by (simp add: one_user_message_def channelList_def)
qed

theorem report_lists_witness:
  "blocks (one_user_message alice [general, eng]) =
     Some [Section (utf16 ''*Here is the list of channels for Alice:*\<newline>\<newline>Total Channels: 2\<newline>\<newline>- #general\<newline>- #eng'')]
   \<and> blocks (one_user_message_sm carol []) =
     Some [Section (utf16 ''*Channels for carol:*\<newline>\<newline>*Total:* 0\<newline>\<newline>_No channels found._'')]
   \<and> blocks (one_user_message_sm alice [general, eng]) =
     Some [Section (utf16 ''*Channels for Alice:*\<newline>\<newline>*Total:* 2\<newline>\<newline>- <#C1|general>\<newline>- <#C2|eng>'')]"
proof -
  have ne: "[general, eng] \<noteq> []" by simp
  from report_lists [where u = alice and ch = "[general, eng]"] ne
  have 1: "blocks (one_user_message alice [general, eng]) =
      Some [Section (utf16 ''*Here is the list of channels for Alice:*\<newline>\<newline>Total Channels: 2\<newline>\<newline>- #general\<newline>- #eng'')]"
    and 3: "blocks (one_user_message_sm alice [general, eng]) =
     Some [Section (utf16 ''*Channels for Alice:*\<newline>\<newline>*Total:* 2\<newline>\<newline>- <#C1|general>\<newline>- <#C2|eng>'')]"
    by (simp_all add: alice_def general_def eng_def decimal.simps utf16_def display_name_def
        itemized_def channel_link_def)
  from report_lists [where u = carol and ch = "[]"]
  have 2: "blocks (one_user_message_sm carol []) =
     Some [Section (utf16 ''*Channels for carol:*\<newline>\<newline>*Total:* 0\<newline>\<newline>_No channels found._'')]"
    by (simp add: carol_def decimal.simps utf16_def display_name_def itemized_def)
  from 1 2 3 show ?thesis by (intro conjI)
qed

text \<open>
  The one-user report of \<^verbatim>\<open>app.js\<close> for Alice: her two channels appear by name alone, not
  as links with their ids.
\<close>

theorem name_only_counterexample:
  "says (snd (handler 2 directory (Some (utf16 ''<@U111>'')))) =
     [\<lparr>blocks = Some [Section (utf16 ''*Here is the list of channels for Alice:*\<newline>\<newline>Total Channels: 2\<newline>\<newline>- #general\<newline>- #eng'')],
       say_text = utf16 ''Channel list for Alice.''\<rparr>]
   \<and> channelList [general, eng] = utf16 ''- #general\<newline>- #eng''
   \<and> itemized [] [general, eng] = utf16 ''- <#C1|general>\<newline>- <#C2|eng>''
   \<and> channelList [general, eng] \<noteq> itemized [] [general, eng]"
proof -
  have "says (snd (handler 2 directory (Some (utf16 ''<@U111>'')))) =
      [one_user_message alice [general, eng]]"
    by (simp add: handler_one)
  then show ?thesis
    by (simp add: one_user_message_def channelList_def itemized_def channel_link_def
        alice_def general_def eng_def decimal.simps utf16_def)
qed

subsection \<open>The input parser\<close>

text \<open>
  Claim C8. In both files and for every command text, the user ids parsed are those of
  the tokens of the text (the text split on white space, empty tokens discarded), token
  by token and in order: a token gives the id of the first occurrence of the mention
  pattern in it, and a token without an occurrence gives none and is dropped. Nothing
  else is removed, so an id mentioned twice is kept twice.
\<close>

theorem input_parser:
  "userIds s = List.map_filter extractUserId (spec_tokens s)
   \<and> userIds_sm s = List.map_filter extractUserId (spec_tokens s)
   \<and> (extractUserId t = Some i \<longleftrightarrow> first_mention t i)
   \<and> (extractUserId t = None \<longleftrightarrow> \<not> has_mention t)"
  by (simp add: userIds_map_filter userIds_sm_map_filter extractUserId_Some extractUserId_None)

theorem input_parser_witness:
  "List.map_filter extractUserId (spec_tokens (utf16 '' <@U111> hello  <@U111> x<@U222>y <@u9> ''))
     = [utf16 ''U111'', utf16 ''U111'', utf16 ''U222'']
   \<and> first_mention (utf16 ''<@U1><@U2>'') (utf16 ''U1'')
   \<and> \<not> has_mention (utf16 ''<@u9>'')"
proof -
  have 1: "userIds (utf16 '' <@U111> hello  <@U111> x<@U222>y <@u9> '')
      = [utf16 ''U111'', utf16 ''U111'', utf16 ''U222'']"
    by (simp add: parse_defs)
  have 2: "extractUserId (utf16 ''<@U1><@U2>'') = Some (utf16 ''U1'')"
    by (simp add: parse_defs)
  have 3: "extractUserId (utf16 ''<@u9>'') = None"
    by (simp add: parse_defs)
  from input_parser [of "utf16 '' <@U111> hello  <@U111> x<@U222>y <@u9> ''"
      "utf16 ''<@U1><@U2>''" "utf16 ''U1''"] 1 2
  have a: "List.map_filter extractUserId (spec_tokens (utf16 '' <@U111> hello  <@U111> x<@U222>y <@u9> ''))
     = [utf16 ''U111'', utf16 ''U111'', utf16 ''U222'']"
    and b: "first_mention (utf16 ''<@U1><@U2>'') (utf16 ''U1'')"
    by simp_all
  from input_parser [of "[]" "utf16 ''<@u9>''" "[]"] 3
  have c: "\<not> has_mention (utf16 ''<@u9>'')"
    by simp
  from a b c show ?thesis by (intro conjI)
qed

subsection \<open>One user mentioned twice\<close>

text \<open>
  Claim C10. When both users' fetched channel lists are the same list \<open>c\<close>, the shared
  list is \<open>c\<close> and both unique lists are empty, in both files. The lists are the same
  when one user is mentioned twice: the two loops then get the same pages, each page requested
  twice in turn, and the report sent is that of the comparison of the list with itself.
\<close>

theorem comparison_identical:
  "sharedChannels c c = c \<and> user1UniqueChannels c c = [] \<and> user2UniqueChannels c c = []
   \<and> shared c c = c \<and> u1Only c c = [] \<and> u2Only c c = []
   \<and> (fetchUserChannels fuel up (id_u u) = (Returned chs, t) \<and> those chs = Some c \<longrightarrow>
        scenario_two_users fuel up u u =
          (Completed, interleave t t @ [Say (two_users_message u u c c)]))
   \<and> (fetchUserChannels_sm fuel up (id_u u) = (Returned c, t) \<longrightarrow>
        two_users_sm fuel up u u =
          (Completed, interleave t t @ [Say (two_users_message_sm u u c c)]))"
  by (simp add: shared_def u1Only_def u2Only_def sharedChannels_def
      user1UniqueChannels_def user2UniqueChannels_def scenario_two_users_def two_users_sm_def
      promise_all2_def)

theorem comparison_identical_witness:
  "scenario_two_users 2 directory alice alice =
     (Completed, [UsersConversations (utf16 ''U111'') None, UsersConversations (utf16 ''U111'') None,
                  UsersConversations (utf16 ''U111'') (Some (utf16 ''p2'')),
                  UsersConversations (utf16 ''U111'') (Some (utf16 ''p2'')),
                  Say (two_users_message alice alice [general, eng] [general, eng])])
   \<and> two_users_sm 2 directory alice alice =
     (Completed, [UsersConversations (utf16 ''U111'') None, UsersConversations (utf16 ''U111'') None,
                  UsersConversations (utf16 ''U111'') (Some (utf16 ''p2'')),
                  UsersConversations (utf16 ''U111'') (Some (utf16 ''p2'')),
                  Say (two_users_message_sm alice alice [general, eng] [general, eng])])
   \<and> sharedChannels [general, eng] [general, eng] = [general, eng]
   \<and> user1UniqueChannels [general, eng] [general, eng] = []
   \<and> user2UniqueChannels [general, eng] [general, eng] = []
   \<and> shared [general, eng] [general, eng] = [general, eng]
   \<and> u1Only [general, eng] [general, eng] = []
   \<and> u2Only [general, eng] [general, eng] = []"
proof -
  have f: "fetchUserChannels 2 directory (id_u alice) =
      (Returned [Some general, Some eng],
       [UsersConversations (utf16 ''U111'') None, UsersConversations (utf16 ''U111'') (Some (utf16 ''p2''))])"
    "fetchUserChannels_sm 2 directory (id_u alice) =
      (Returned [general, eng],
       [UsersConversations (utf16 ''U111'') None, UsersConversations (utf16 ''U111'') (Some (utf16 ''p2''))])"
    using fetch_alice [of 0] by (simp_all add: numeral_2_eq_2)
  have t: "those [Some general, Some eng] = Some [general, eng]" by simp
  from comparison_identical [of "[general, eng]" 2 directory alice "[Some general, Some eng]"
      "[UsersConversations (utf16 ''U111'') None, UsersConversations (utf16 ''U111'') (Some (utf16 ''p2''))]"] f t
  show ?thesis by simp
qed

end
